theory Spec2Isabelle
  imports Main "HOL-Library.Word" "HOL-Library.Monad_Syntax" "HOL-Library.Sublist"
begin

unbundle bit_operations_syntax

section \<open>A shallow embedding of \<^verbatim>\<open>skiplist::SkipList\<close> (skip\_list.h)\<close>

text \<open>
  The class template is embedded at \<^verbatim>\<open>KeyType = ValueType = int\<close> (32-bit two's
  complement) with the \<^verbatim>\<open>DefaultComparator\<close>; the traversals of insert and search are
  given a second time with the comparator as a parameter, for the class at another
  \<^verbatim>\<open>_Comp\<close>. The template parameter \<^verbatim>\<open>_MAX_LEVEL\<close> stays a parameter of the
  constructor (a \<^verbatim>\<open>size_t\<close> of 64 bits); the namespace constant \<^verbatim>\<open>MAX_LEVEL\<close> is the
  constant below.

  Every operation returns an \<open>option\<close>: \<open>None\<close> stands for an execution the C++
  standard leaves undefined (reading through a null, freed or wild pointer, indexing a
  \<^verbatim>\<open>Level\<close> array out of bounds, deleting a node twice, shifting by the width of
  the type) or for a loop that never ends. The constructor returns \<open>None\<close> when it
  terminates the program instead of returning a container.
\<close>

subsection \<open>Constants and the comparator\<close>

definition MAX_LEVEL :: nat where
  "MAX_LEVEL = 32"

type_synonym KeyType = "32 word"
type_synonym ValueType = "32 word"

text \<open>\<^verbatim>\<open>std::numeric_limits<int>::min()\<close>, and \<^verbatim>\<open>ValueType value = -1\<close> of remove.\<close>

definition KEY_MIN :: KeyType where
  "KEY_MIN = 0x80000000"

definition VALUE_MIN :: ValueType where
  "VALUE_MIN = 0x80000000"

definition MINUS_ONE :: ValueType where
  "MINUS_ONE = - 1"

text \<open>
  \<^verbatim>\<open>DefaultComparator::operator()\<close>: \<^verbatim>\<open>a == b ? 0 : a < b ? -1 : 1\<close> on signed
  32-bit integers.
\<close>

definition comparator :: "32 word \<Rightarrow> 32 word \<Rightarrow> int" where
  "comparator a b = (if a = b then 0 else if a <s b then - 1 else 1)"

subsection \<open>Level selection\<close>

text \<open>
  \<^verbatim>\<open>randomLevel(level = MAX_LEVEL)\<close>. The draw \<^verbatim>\<open>long long rd = mt()\<close> of the
  function-local generator is an argument. In \<^verbatim>\<open>rd & (1 << i)\<close> the shift is done in
  \<^verbatim>\<open>int\<close> and the result is sign-extended to \<^verbatim>\<open>long long\<close>; a shift count of 32 or
  more is undefined.
\<close>

function randomLevel_loop :: "nat \<Rightarrow> 64 word \<Rightarrow> nat \<Rightarrow> nat option" where
  "randomLevel_loop level rd i =
     (if i < level then
        (if 32 \<le> i then None
         else if rd AND scast (push_bit i (1 :: 32 word)) = 0 then Some (i + 1)
         else randomLevel_loop level rd (i + 1))
      else Some level)"
  by pat_completeness auto
termination
  by (relation "measure (\<lambda>(level, rd, i). level - i)") auto

definition randomLevel :: "nat \<Rightarrow> 64 word \<Rightarrow> nat option" where
  "randomLevel level rd = randomLevel_loop level rd 0"

text \<open>The index of the lowest clear bit of the drawn word, if it has one.\<close>

definition first_zero_bit :: "64 word \<Rightarrow> nat option" where
  "first_zero_bit rd = find (\<lambda>i. \<not> bit rd i) [0..<64]"

subsection \<open>Nodes and the store\<close>

text \<open>
  \<^verbatim>\<open>struct Node\<close>: key, value and the \<^verbatim>\<open>Level\<close> array of forward pointers
  (\<open>None\<close> is \<^verbatim>\<open>nullptr\<close>). Nodes live in a store indexed by address; a slot holding
  \<open>None\<close> is a node that has been deleted. \<^verbatim>\<open>new\<close> always returns the next unused
  address (allocation failure is not modelled). The members \<^verbatim>\<open>maxLevel_\<close> and
  \<^verbatim>\<open>head_\<close> lose their trailing underscore.
\<close>

record Node =
  key :: KeyType
  val :: ValueType
  level :: "nat option list"

type_synonym store = "Node option list"

record SkipList =
  maxLevel :: nat
  head :: nat
  heap :: store

definition deref :: "store \<Rightarrow> nat \<Rightarrow> Node option" where
  "deref h p = (if p < length h then h ! p else None)"

text \<open>\<^verbatim>\<open>p->level[i].next\<close>, read and written.\<close>

definition next_at :: "store \<Rightarrow> nat \<Rightarrow> nat \<Rightarrow> nat option option" where
  "next_at h p i = do {
     n \<leftarrow> deref h p;
     if i < length (level n) then Some (level n ! i) else None }"

definition set_next :: "store \<Rightarrow> nat \<Rightarrow> nat \<Rightarrow> nat option \<Rightarrow> store option" where
  "set_next h p i x = do {
     n \<leftarrow> deref h p;
     if i < length (level n) then Some (h[p := Some (n\<lparr>level := (level n)[i := x]\<rparr>)])
     else None }"

text \<open>\<^verbatim>\<open>createNode\<close> (\<^verbatim>\<open>new Node(level, key, value)\<close>, links zeroed) and \<^verbatim>\<open>delete\<close>.\<close>

definition createNode :: "store \<Rightarrow> nat \<Rightarrow> KeyType \<Rightarrow> ValueType \<Rightarrow> nat \<times> store" where
  "createNode h lv k v =
     (length h, h @ [Some \<lparr>key = k, val = v, level = replicate lv None\<rparr>])"

definition delete_node :: "store \<Rightarrow> nat option \<Rightarrow> store option" where
  "delete_node h d =
     (case d of None \<Rightarrow> Some h
      | Some p \<Rightarrow> do { n \<leftarrow> deref h p; Some (h[p := None]) })"

text \<open>
  The constructor; its argument is the template parameter \<^verbatim>\<open>size_t _MAX_LEVEL\<close>.
  \<^verbatim>\<open>createNode(int level, ...)\<close> receives it converted to \<^verbatim>\<open>int\<close>: the conversion keeps
  the low 32 bits. With a negative \<^verbatim>\<open>level\<close>, \<^verbatim>\<open>new Level[level]\<close> throws
  \<^verbatim>\<open>std::bad_array_new_length\<close> inside the \<^verbatim>\<open>noexcept\<close> function \<^verbatim>\<open>createNode\<close>, which
  terminates the program: no container is constructed.
\<close>

definition SkipList_ctor :: "64 word \<Rightarrow> SkipList option" where
  "SkipList_ctor cnt =
     (let lv = (ucast cnt :: 32 word) in
      if lv <s 0 then None
      else let (p, h) = createNode [] (nat (sint lv)) KEY_MIN VALUE_MIN
           in Some \<lparr>maxLevel = 0, head = p, heap = h\<rparr>)"

subsection \<open>The inner \<^verbatim>\<open>while\<close> loops\<close>

text \<open>
  \<^verbatim>\<open>while (p->level[i].next && c(p->level[i].next)) p = p->level[i].next;\<close>
  The three operations differ in the condition \<open>c\<close> only. The loop does not write, so
  if it makes as many steps as the store has slots it has come back to a node it has
  already left and never ends: the fuel is the number of slots, and running out of it is
  the divergence of the loop.
\<close>

fun advance :: "nat \<Rightarrow> store \<Rightarrow> nat \<Rightarrow> (Node \<Rightarrow> bool) \<Rightarrow> nat \<Rightarrow> nat option" where
  "advance 0 h i c p = None"
| "advance (Suc fuel) h i c p = do {
     nx \<leftarrow> next_at h p i;
     case nx of
       None \<Rightarrow> Some p
     | Some q \<Rightarrow> do {
         n \<leftarrow> deref h q;
         if c n then advance fuel h i c q else Some p } }"

definition insert_cond :: "KeyType \<Rightarrow> ValueType \<Rightarrow> Node \<Rightarrow> bool" where
  "insert_cond k v n \<longleftrightarrow>
     comparator (key n) k < 0 \<or> (comparator (key n) k = 0 \<and> comparator (val n) v < 0)"

definition remove_cond :: "KeyType \<Rightarrow> Node \<Rightarrow> bool" where
  "remove_cond k n \<longleftrightarrow> comparator (key n) k < 0"

definition search_cond :: "KeyType \<Rightarrow> Node \<Rightarrow> bool" where
  "search_cond k n \<longleftrightarrow> comparator (key n) k \<le> 0"

subsection \<open>insert\<close>

text \<open>
  The \<^verbatim>\<open>for (int i = maxLevel - 1; i >= 0; --i)\<close> loops count the levels still to
  visit: \<open>Suc i\<close> visits level \<open>i\<close>.
\<close>

fun insert_levels ::
  "nat \<Rightarrow> store \<Rightarrow> nat \<Rightarrow> KeyType \<Rightarrow> ValueType \<Rightarrow> nat \<Rightarrow> nat \<Rightarrow> store option" where
  "insert_levels 0 h lv k v node p = Some h"
| "insert_levels (Suc i) h lv k v node p = do {
     p' \<leftarrow> advance (length h) h i (insert_cond k v) p;
     h' \<leftarrow> (if i < lv then do {
               nx \<leftarrow> next_at h p' i;
               h1 \<leftarrow> set_next h node i nx;
               set_next h1 p' i (Some node) }
            else Some h);
     insert_levels i h' lv k v node p' }"

definition insert_kv ::
  "SkipList \<Rightarrow> KeyType \<Rightarrow> ValueType \<Rightarrow> 64 word \<Rightarrow> (int \<times> SkipList) option" where
  "insert_kv s k v rd = do {
     lv \<leftarrow> randomLevel MAX_LEVEL rd;
     let m = (if maxLevel s < lv then lv else maxLevel s);
     let (node, h) = createNode (heap s) lv k v;
     h' \<leftarrow> insert_levels m h lv k v node (head s);
     Some (0, s\<lparr>maxLevel := m, heap := h'\<rparr>) }"

subsection \<open>searchNode, search and update\<close>

fun searchNode_levels :: "nat \<Rightarrow> store \<Rightarrow> KeyType \<Rightarrow> nat \<Rightarrow> nat option" where
  "searchNode_levels 0 h k p = Some p"
| "searchNode_levels (Suc i) h k p = do {
     p' \<leftarrow> advance (length h) h i (search_cond k) p;
     searchNode_levels i h k p' }"

text \<open>The result is \<open>Some None\<close> for \<^verbatim>\<open>nullptr\<close> and \<open>Some (Some p)\<close> for the node \<open>p\<close>.\<close>

definition searchNode :: "SkipList \<Rightarrow> KeyType \<Rightarrow> nat option option" where
  "searchNode s k = do {
     p \<leftarrow> searchNode_levels (maxLevel s) (heap s) k (head s);
     n \<leftarrow> deref (heap s) p;
     Some (if key n = k then Some p else None) }"

definition search :: "SkipList \<Rightarrow> KeyType \<Rightarrow> ValueType option" where
  "search s k = do {
     node \<leftarrow> searchNode s k;
     case node of
       None \<Rightarrow> Some VALUE_MIN
     | Some p \<Rightarrow> do { n \<leftarrow> deref (heap s) p; Some (val n) } }"

definition update :: "SkipList \<Rightarrow> KeyType \<Rightarrow> ValueType \<Rightarrow> (int \<times> SkipList) option" where
  "update s k v = do {
     node \<leftarrow> searchNode s k;
     case node of
       None \<Rightarrow> Some (1, s)
     | Some p \<Rightarrow> do {
         n \<leftarrow> deref (heap s) p;
         Some (0, s\<lparr>heap := (heap s)[p := Some (n\<lparr>val := v\<rparr>)]\<rparr>) } }"

subsection \<open>remove\<close>

fun remove_levels ::
  "nat \<Rightarrow> store \<Rightarrow> KeyType \<Rightarrow> nat \<Rightarrow> nat option \<Rightarrow> ValueType
     \<Rightarrow> (store \<times> nat option \<times> ValueType) option" where
  "remove_levels 0 h k p delNode v = Some (h, delNode, v)"
| "remove_levels (Suc i) h k p delNode v = do {
     p' \<leftarrow> advance (length h) h i (remove_cond k) p;
     nx \<leftarrow> next_at h p' i;
     case nx of
       None \<Rightarrow> remove_levels i h k p' delNode v
     | Some q \<Rightarrow> do {
         n \<leftarrow> deref h q;
         if comparator (key n) k = 0 then do {
           nn \<leftarrow> next_at h q i;
           h' \<leftarrow> set_next h p' i nn;
           remove_levels i h' k p' (Some q) (val n) }
         else remove_levels i h k p' delNode v } }"

definition remove :: "SkipList \<Rightarrow> KeyType \<Rightarrow> (ValueType \<times> SkipList) option" where
  "remove s k = do {
     (h, delNode, v) \<leftarrow> remove_levels (maxLevel s) (heap s) k (head s) None MINUS_ONE;
     h' \<leftarrow> delete_node h delNode;
     Some (v, s\<lparr>heap := h'\<rparr>) }"

subsection \<open>clear\<close>

text \<open>
  The inner \<^verbatim>\<open>for (int i = 0; i < maxLevel; ++i)\<close> counts the levels still to visit.
  Each pass of the outer \<^verbatim>\<open>while\<close> deletes a node that was live, so it cannot complete
  more passes than the store has slots: that number is its fuel.
\<close>

fun clear_levels :: "nat \<Rightarrow> nat \<Rightarrow> store \<Rightarrow> nat \<Rightarrow> store option" where
  "clear_levels 0 i h hp = Some h"
| "clear_levels (Suc n) i h hp = do {
     nx \<leftarrow> next_at h hp i;
     h' \<leftarrow> (case nx of
              None \<Rightarrow> Some h
            | Some q \<Rightarrow> do { nn \<leftarrow> next_at h q i; set_next h hp i nn });
     clear_levels n (Suc i) h' hp }"

fun clear_loop :: "nat \<Rightarrow> nat \<Rightarrow> nat \<Rightarrow> store \<Rightarrow> store option" where
  "clear_loop 0 m hp h = None"
| "clear_loop (Suc fuel) m hp h = do {
     nx \<leftarrow> next_at h hp 0;
     case nx of
       None \<Rightarrow> Some h
     | Some delNode \<Rightarrow> do {
         h1 \<leftarrow> clear_levels m 0 h hp;
         h2 \<leftarrow> delete_node h1 (Some delNode);
         clear_loop fuel m hp h2 } }"

definition clear :: "SkipList \<Rightarrow> SkipList option" where
  "clear s = do {
     h \<leftarrow> clear_loop (length (heap s)) (maxLevel s) (head s) (heap s);
     Some (s\<lparr>heap := h\<rparr>) }"

subsection \<open>Observing a container\<close>

text \<open>
  The addresses met from \<open>p\<close> along level \<open>i\<close> up to the null link, and the
  (key, value) pairs they hold. The head is not part of its own chains.
\<close>

fun chain :: "nat \<Rightarrow> store \<Rightarrow> nat \<Rightarrow> nat \<Rightarrow> nat list option" where
  "chain 0 h i p = None"
| "chain (Suc fuel) h i p = do {
     nx \<leftarrow> next_at h p i;
     case nx of
       None \<Rightarrow> Some []
     | Some q \<Rightarrow> do { ns \<leftarrow> chain fuel h i q; Some (q # ns) } }"

definition level_chain :: "SkipList \<Rightarrow> nat \<Rightarrow> nat list option" where
  "level_chain s i = chain (length (heap s)) (heap s) i (head s)"

definition key_at :: "store \<Rightarrow> nat \<Rightarrow> KeyType" where
  "key_at h p = (case deref h p of None \<Rightarrow> 0 | Some n \<Rightarrow> key n)"

definition val_at :: "store \<Rightarrow> nat \<Rightarrow> ValueType" where
  "val_at h p = (case deref h p of None \<Rightarrow> 0 | Some n \<Rightarrow> val n)"

definition entries :: "SkipList \<Rightarrow> nat \<Rightarrow> (KeyType \<times> ValueType) list option" where
  "entries s i =
     map_option (map (\<lambda>p. (key_at (heap s) p, val_at (heap s) p))) (level_chain s i)"

text \<open>
  A client of the container: a sequence of calls on one instance, stopping at the first
  call whose behaviour is undefined. \<open>construct_and_run\<close> constructs the instance with
  the default template argument \<^verbatim>\<open>_MAX_LEVEL = MAX_LEVEL\<close> first. The states a
  default-constructed container can be brought into are the results of such sequences.
\<close>

datatype operation =
    Insert KeyType ValueType "64 word"
  | Update KeyType ValueType
  | Remove KeyType
  | Clear

fun apply_op :: "SkipList \<Rightarrow> operation \<Rightarrow> SkipList option" where
  "apply_op s (Insert k v rd) = map_option snd (insert_kv s k v rd)"
| "apply_op s (Update k v) = map_option snd (update s k v)"
| "apply_op s (Remove k) = map_option snd (remove s k)"
| "apply_op s Clear = clear s"

fun run :: "SkipList \<Rightarrow> operation list \<Rightarrow> SkipList option" where
  "run s [] = Some s"
| "run s (x # xs) = do { s' \<leftarrow> apply_op s x; run s' xs }"

definition construct_and_run :: "operation list \<Rightarrow> SkipList option" where
  "construct_and_run ops = do { s \<leftarrow> SkipList_ctor (of_nat MAX_LEVEL); run s ops }"

definition reachable :: "SkipList \<Rightarrow> bool" where
  "reachable s \<longleftrightarrow> (\<exists>ops. construct_and_run ops = Some s)"

subsection \<open>The traversals with the comparator as a parameter\<close>

text \<open>
  The class holds a default-constructed \<^verbatim>\<open>_Comp comparator_\<close>; the constructor never
  calls it. Below are the loop conditions and the bodies of insert, searchNode and search
  once more, for any \<^verbatim>\<open>int operator()(const T&, const T&)\<close> on \<^verbatim>\<open>int\<close>. \<open>always_less\<close> is
  a comparator that is not a total order: it returns \<open>-1\<close> for every pair.
\<close>

definition insert_cond_by ::
  "(32 word \<Rightarrow> 32 word \<Rightarrow> int) \<Rightarrow> KeyType \<Rightarrow> ValueType \<Rightarrow> Node \<Rightarrow> bool" where
  "insert_cond_by cmp k v n \<longleftrightarrow>
     cmp (key n) k < 0 \<or> (cmp (key n) k = 0 \<and> cmp (val n) v < 0)"

definition search_cond_by :: "(32 word \<Rightarrow> 32 word \<Rightarrow> int) \<Rightarrow> KeyType \<Rightarrow> Node \<Rightarrow> bool" where
  "search_cond_by cmp k n \<longleftrightarrow> cmp (key n) k \<le> 0"

fun insert_levels_by ::
  "(32 word \<Rightarrow> 32 word \<Rightarrow> int) \<Rightarrow> nat \<Rightarrow> store \<Rightarrow> nat \<Rightarrow> KeyType \<Rightarrow> ValueType \<Rightarrow> nat \<Rightarrow> nat
     \<Rightarrow> store option" where
  "insert_levels_by cmp 0 h lv k v node p = Some h"
| "insert_levels_by cmp (Suc i) h lv k v node p = do {
     p' \<leftarrow> advance (length h) h i (insert_cond_by cmp k v) p;
     h' \<leftarrow> (if i < lv then do {
               nx \<leftarrow> next_at h p' i;
               h1 \<leftarrow> set_next h node i nx;
               set_next h1 p' i (Some node) }
            else Some h);
     insert_levels_by cmp i h' lv k v node p' }"

definition insert_by ::
  "(32 word \<Rightarrow> 32 word \<Rightarrow> int) \<Rightarrow> SkipList \<Rightarrow> KeyType \<Rightarrow> ValueType \<Rightarrow> 64 word
     \<Rightarrow> (int \<times> SkipList) option" where
  "insert_by cmp s k v rd = do {
     lv \<leftarrow> randomLevel MAX_LEVEL rd;
     let m = (if maxLevel s < lv then lv else maxLevel s);
     let (node, h) = createNode (heap s) lv k v;
     h' \<leftarrow> insert_levels_by cmp m h lv k v node (head s);
     Some (0, s\<lparr>maxLevel := m, heap := h'\<rparr>) }"

fun searchNode_levels_by ::
  "(32 word \<Rightarrow> 32 word \<Rightarrow> int) \<Rightarrow> nat \<Rightarrow> store \<Rightarrow> KeyType \<Rightarrow> nat \<Rightarrow> nat option" where
  "searchNode_levels_by cmp 0 h k p = Some p"
| "searchNode_levels_by cmp (Suc i) h k p = do {
     p' \<leftarrow> advance (length h) h i (search_cond_by cmp k) p;
     searchNode_levels_by cmp i h k p' }"

definition searchNode_by ::
  "(32 word \<Rightarrow> 32 word \<Rightarrow> int) \<Rightarrow> SkipList \<Rightarrow> KeyType \<Rightarrow> nat option option" where
  "searchNode_by cmp s k = do {
     p \<leftarrow> searchNode_levels_by cmp (maxLevel s) (heap s) k (head s);
     n \<leftarrow> deref (heap s) p;
     Some (if key n = k then Some p else None) }"

definition search_by ::
  "(32 word \<Rightarrow> 32 word \<Rightarrow> int) \<Rightarrow> SkipList \<Rightarrow> KeyType \<Rightarrow> ValueType option" where
  "search_by cmp s k = do {
     node \<leftarrow> searchNode_by cmp s k;
     case node of
       None \<Rightarrow> Some VALUE_MIN
     | Some p \<Rightarrow> do { n \<leftarrow> deref (heap s) p; Some (val n) } }"

definition always_less :: "32 word \<Rightarrow> 32 word \<Rightarrow> int" where
  "always_less a b = - 1"

subsection \<open>Concrete containers\<close>

text \<open>
  Containers used as concrete inputs below: the default-constructed container; the
  container after \<^verbatim>\<open>insert(5, 7)\<close> with a drawn height of 1; the empty container after
  \<^verbatim>\<open>update(numeric_limits<int>::min(), 5)\<close>; and the container after
  \<^verbatim>\<open>insert(3, 1)\<close> and \<^verbatim>\<open>insert(5, 1)\<close> with drawn heights of 2 followed by
  \<^verbatim>\<open>insert(4, 1)\<close> with a drawn height of 1.
\<close>

definition empty_container :: SkipList where
  "empty_container =
     \<lparr>maxLevel = 0, head = 0,
      heap = [Some \<lparr>key = KEY_MIN, val = VALUE_MIN, level = replicate 32 None\<rparr>]\<rparr>"

definition one_entry :: SkipList where
  "one_entry =
     \<lparr>maxLevel = 1, head = 0,
      heap = [Some \<lparr>key = KEY_MIN, val = VALUE_MIN, level = Some 1 # replicate 31 None\<rparr>,
              Some \<lparr>key = 5, val = 7, level = [None]\<rparr>]\<rparr>"

definition head_overwritten :: SkipList where
  "head_overwritten =
     \<lparr>maxLevel = 0, head = 0,
      heap = [Some \<lparr>key = KEY_MIN, val = 5, level = replicate 32 None\<rparr>]\<rparr>"

definition two_levels :: SkipList where
  "two_levels =
     \<lparr>maxLevel = 2, head = 0,
      heap = [Some \<lparr>key = KEY_MIN, val = VALUE_MIN,
                     level = Some 1 # Some 1 # replicate 30 None\<rparr>,
              Some \<lparr>key = 3, val = 1, level = [Some 3, Some 2]\<rparr>,
              Some \<lparr>key = 5, val = 1, level = [None, None]\<rparr>,
              Some \<lparr>key = 4, val = 1, level = [Some 2]\<rparr>]\<rparr>"

text \<open>
  The (key, value) pair a node holds, and the order in which insert compares pairs: key
  first, value second, both as signed integers.
\<close>

definition entry_at :: "SkipList \<Rightarrow> nat \<Rightarrow> KeyType \<times> ValueType" where
  "entry_at s p = (key_at (heap s) p, val_at (heap s) p)"

definition entry_lt :: "KeyType \<times> ValueType \<Rightarrow> KeyType \<times> ValueType \<Rightarrow> bool" where
  "entry_lt a b \<longleftrightarrow>
     sint (fst a) < sint (fst b) \<or> (fst a = fst b \<and> sint (snd a) < sint (snd b))"

subsection \<open>Notions of the proofs\<close>

text \<open>
  The key of a node as an integer. \<open>path h i p ns\<close>: following the level-\<open>i\<close> links from
  \<open>p\<close> meets exactly the nodes \<open>ns\<close>, all live, and then a null link; \<open>links\<close> is
  the same without the final null. \<open>same_shape\<close>: two stores hold the same nodes up to
  the contents of their link arrays.
\<close>

definition ikey :: "store \<Rightarrow> nat \<Rightarrow> int" where
  "ikey h p = sint (key_at h p)"

fun path :: "store \<Rightarrow> nat \<Rightarrow> nat \<Rightarrow> nat list \<Rightarrow> bool" where
  "path h i p [] = (next_at h p i = Some None)"
| "path h i p (q # qs) = (next_at h p i = Some (Some q) \<and> path h i q qs)"

fun links :: "store \<Rightarrow> nat \<Rightarrow> nat \<Rightarrow> nat list \<Rightarrow> bool" where
  "links h i p [] = True"
| "links h i p (q # qs) = (next_at h p i = Some (Some q) \<and> links h i q qs)"

definition same_shape :: "store \<Rightarrow> store \<Rightarrow> bool" where
  "same_shape h h' \<longleftrightarrow>
     length h' = length h \<and>
     (\<forall>q. map_option (\<lambda>n. (key n, val n, length (level n))) (deref h' q) =
          map_option (\<lambda>n. (key n, val n, length (level n))) (deref h q))"

text \<open>
  Positions in a chain that starts with the head: the part up to and including \<open>p\<close>,
  and the part behind it.
\<close>

definition before :: "'a \<Rightarrow> 'a list \<Rightarrow> 'a list" where
  "before p xs = takeWhile (\<lambda>x. x \<noteq> p) xs @ [p]"

definition after :: "'a \<Rightarrow> 'a list \<Rightarrow> 'a list" where
  "after p xs = tl (dropWhile (\<lambda>x. x \<noteq> p) xs)"

text \<open>
  What one pass of remove does to a chain sorted by key (\<open>rm1\<close>: the first node whose
  key is \<open>K\<close> goes, \<open>first_eq\<close>: that node), and what one pass of insert does to a
  chain, started at \<open>p\<close> (\<open>ins_at\<close>); \<open>placed\<close> is what is left of it when the
  starting point is forgotten, and \<open>lt_at\<close> is the loop condition of insert on
  addresses.
\<close>

fun rm1 :: "('a \<Rightarrow> int) \<Rightarrow> int \<Rightarrow> 'a list \<Rightarrow> 'a list" where
  "rm1 f K [] = []"
| "rm1 f K (x # xs) = (if f x < K then x # rm1 f K xs else if f x = K then xs else x # xs)"

definition first_eq :: "('a \<Rightarrow> int) \<Rightarrow> int \<Rightarrow> 'a list \<Rightarrow> 'a option" where
  "first_eq f K cs =
     (case dropWhile (\<lambda>q. f q < K) cs of [] \<Rightarrow> None
      | q # _ \<Rightarrow> if f q = K then Some q else None)"

definition lt_at :: "store \<Rightarrow> KeyType \<Rightarrow> ValueType \<Rightarrow> nat \<Rightarrow> bool" where
  "lt_at h k v q \<longleftrightarrow>
     ikey h q < sint k \<or> (ikey h q = sint k \<and> sint (val_at h q) < sint v)"

definition ins_at :: "('a \<Rightarrow> bool) \<Rightarrow> 'a \<Rightarrow> 'a \<Rightarrow> 'a list \<Rightarrow> 'a list" where
  "ins_at P node p fc =
     tl (before p fc) @ takeWhile P (after p fc) @ node # dropWhile P (after p fc)"

definition placed :: "('a \<Rightarrow> bool) \<Rightarrow> 'a \<Rightarrow> 'a list \<Rightarrow> 'a list \<Rightarrow> bool" where
  "placed P node cs cs' \<longleftrightarrow>
     (\<exists>X Y. cs = X @ Y \<and> cs' = X @ node # Y \<and> (X = [] \<or> P (last X)) \<and> (Y = [] \<or> \<not> P (hd Y)))"

text \<open>
  The invariant of the container. Levels \<open>0 ..< n\<close> hold chains from the head that end
  in null, are sorted by key (not strictly: insert keeps equal keys), and each is a
  subsequence of the one below. In a well-formed container that holds for all
  \<open>MAX_LEVEL\<close> levels, the levels from \<open>maxLevel\<close> on are empty, and the head holds the
  least key.
\<close>

definition chains_ok :: "store \<Rightarrow> nat \<Rightarrow> nat \<Rightarrow> (nat \<Rightarrow> nat list) \<Rightarrow> bool" where
  "chains_ok h hp n cs \<longleftrightarrow>
     (\<forall>i<n. path h i hp (cs i) \<and> sorted (map (ikey h) (cs i))) \<and>
     (\<forall>i. Suc i < n \<longrightarrow> subseq (cs (Suc i)) (cs i))"

definition well_formed :: "SkipList \<Rightarrow> bool" where
  "well_formed s \<longleftrightarrow>
     maxLevel s \<le> MAX_LEVEL \<and> key_at (heap s) (head s) = KEY_MIN \<and>
     (\<exists>cs. chains_ok (heap s) (head s) MAX_LEVEL cs \<and>
           (\<forall>i. maxLevel s \<le> i \<longrightarrow> i < MAX_LEVEL \<longrightarrow> cs i = []))"

section \<open>Level selection\<close>

declare randomLevel_loop.simps [simp del]

lemma scast_push_bit_1:
  "i < 31 \<Longrightarrow> (scast (push_bit i (1 :: 32 word)) :: 64 word) = push_bit i 1"
  by (rule bit_word_eqI) (auto simp add: bit_simps)

lemma randomLevel_test:
  "i < 31 \<Longrightarrow> (rd AND scast (push_bit i (1 :: 32 word)) = 0) = (\<not> bit rd i)"
  for rd :: "64 word"
  unfolding scast_push_bit_1 by (metis bit_iff_and_push_bit_not_eq_0)

lemma randomLevel_test_exp:
  "i < 31 \<Longrightarrow> (rd AND scast (2 ^ i :: 32 word) = 0) = (\<not> bit rd i)"
  for rd :: "64 word"
  using randomLevel_test [of i rd] by simp

lemma first_zero_bit_Some:
  "first_zero_bit rd = Some z \<longleftrightarrow> z < 64 \<and> \<not> bit rd z \<and> (\<forall>j<z. bit rd j)"
  unfolding first_zero_bit_def find_Some_iff
  by auto

lemma randomLevel_loop_first_zero:
  "i \<le> cap \<Longrightarrow> cap \<le> 32 \<Longrightarrow> \<forall>j<i. bit rd j \<Longrightarrow>
   randomLevel_loop cap rd i =
     Some (case first_zero_bit rd of None \<Rightarrow> cap | Some z \<Rightarrow> min (z + 1) cap)"
proof (induction cap rd i rule: randomLevel_loop.induct)
  case (1 cap rd i)
  have ge: "i \<le> z" if "first_zero_bit rd = Some z" for z
    using that "1.prems"(3) by (fastforce simp: first_zero_bit_Some not_le[symmetric])
  show ?case
  proof (cases "i < cap")
    case False
    with "1.prems" have "i = cap" by simp
    then show ?thesis
      using ge by (subst randomLevel_loop.simps) (auto split: option.splits simp: min_def)
  next
    case True
    note lt = this
    show ?thesis
    proof (cases "i < 31")
      case True
      show ?thesis
      proof (cases "bit rd i")
        case False
        with "1.prems" True have "first_zero_bit rd = Some i"
          by (simp add: first_zero_bit_Some)
        with False True lt show ?thesis
          by (subst randomLevel_loop.simps) (simp add: randomLevel_test_exp)
      next
        case b: True
        have "\<forall>j<i + 1. bit rd j"
          using b "1.prems"(3) by (auto simp: less_Suc_eq)
        with "1.IH" [of] lt True b "1.prems" show ?thesis
          by (subst randomLevel_loop.simps) (simp add: randomLevel_test_exp)
      qed
    next
      case False
      with lt "1.prems" have i: "i = 31" and l: "cap = 32" by auto
      have r: "(case first_zero_bit rd of None \<Rightarrow> cap | Some z \<Rightarrow> min (z + 1) cap) = 32"
        using ge i l by (auto split: option.splits simp: min_def)
      have "randomLevel_loop 32 rd 32 = Some 32"
        by (subst randomLevel_loop.simps) simp
      then have "randomLevel_loop 32 rd 31 = Some 32"
        by (subst randomLevel_loop.simps) simp
      with r i l show ?thesis by simp
    qed
  qed
qed

lemma randomLevel_MAX_LEVEL:
  "\<exists>lv. randomLevel MAX_LEVEL rd = Some lv \<and> 0 < lv \<and> lv \<le> MAX_LEVEL"
  unfolding randomLevel_def MAX_LEVEL_def
  by (subst randomLevel_loop_first_zero) (auto split: option.splits)

text \<open>
  What the level selector computes. For a cap \<open>cap\<close> between 1 and \<open>MAX_LEVEL\<close> and every
  drawn word, it returns a height between 1 and the cap, equal to one plus the index of
  the lowest clear bit of the word, capped; it returns the cap when the word has no
  clear bit. The cap is its argument, and insert calls it without one: the cap is always
  the namespace constant \<open>MAX_LEVEL\<close>, whatever the configured \<^verbatim>\<open>_MAX_LEVEL\<close> is.
\<close>

theorem randomLevel_height:
  "0 < cap \<Longrightarrow> cap \<le> MAX_LEVEL \<Longrightarrow>
   \<exists>h. randomLevel cap rd = Some h \<and> 1 \<le> h \<and> h \<le> cap \<and>
       h = (case first_zero_bit rd of None \<Rightarrow> cap | Some z \<Rightarrow> min (z + 1) cap)"
  unfolding randomLevel_def MAX_LEVEL_def
  by (subst randomLevel_loop_first_zero) (auto split: option.splits)

theorem randomLevel_height_witness:
  "0 < MAX_LEVEL \<and> MAX_LEVEL \<le> MAX_LEVEL \<and> randomLevel MAX_LEVEL 0x17 = Some 4
     \<and> first_zero_bit 0x17 = Some 3"
proof -
  have fz: "first_zero_bit 0x17 = Some 3" by code_simp
  show ?thesis
    using randomLevel_height [of MAX_LEVEL "0x17"] fz by (simp add: MAX_LEVEL_def)
qed

section \<open>Signed comparison\<close>

lemma comparator_less: "comparator a b < 0 \<longleftrightarrow> sint a < sint b"
  by (auto simp: comparator_def word_sless_alt)

lemma comparator_eq: "comparator a b = 0 \<longleftrightarrow> a = b"
  by (auto simp: comparator_def)

lemma comparator_le: "comparator a b \<le> 0 \<longleftrightarrow> sint a \<le> sint b"
  by (auto simp: comparator_def word_sless_alt signed_word_eqI order.order_iff_strict)

lemma sint_KEY_MIN_le: "sint KEY_MIN \<le> sint (k :: 32 word)"
  using sint_ge [of k] by (simp add: KEY_MIN_def)

lemma sint_eq_iff: "sint a = sint b \<longleftrightarrow> a = b" for a b :: "32 word"
  by (auto intro: signed_word_eqI)

section \<open>The store\<close>

lemma same_shape_refl [simp]: "same_shape h h"
  by (simp add: same_shape_def)

lemma same_shape_trans: "same_shape h h1 \<Longrightarrow> same_shape h1 h2 \<Longrightarrow> same_shape h h2"
  by (simp add: same_shape_def)

lemma same_shape_length: "same_shape h h' \<Longrightarrow> length h' = length h"
  by (simp add: same_shape_def)

lemma same_shape_key_at: "same_shape h h' \<Longrightarrow> key_at h' q = key_at h q"
  unfolding same_shape_def key_at_def
  by (erule conjE, erule_tac x=q in allE) (auto split: option.splits)

lemma same_shape_val_at: "same_shape h h' \<Longrightarrow> val_at h' q = val_at h q"
  unfolding same_shape_def val_at_def
  by (erule conjE, erule_tac x=q in allE) (auto split: option.splits)

lemma same_shape_ikey: "same_shape h h' \<Longrightarrow> ikey h' = ikey h"
  by (rule ext) (simp add: ikey_def same_shape_key_at)

lemma same_shape_deref_None: "same_shape h h' \<Longrightarrow> deref h' q = None \<longleftrightarrow> deref h q = None"
  unfolding same_shape_def
  by (erule conjE, erule_tac x=q in allE) (auto split: option.splits)

lemma same_shape_next_at_None:
  "same_shape h h' \<Longrightarrow> next_at h' q j = None \<longleftrightarrow> next_at h q j = None"
proof -
  assume "same_shape h h'"
  then have "map_option (\<lambda>n. (key n, val n, length (level n))) (deref h' q) =
          map_option (\<lambda>n. (key n, val n, length (level n))) (deref h q)"
    by (simp add: same_shape_def)
  then show ?thesis
    by (cases "deref h q"; cases "deref h' q") (auto simp: next_at_def)
qed

lemma set_next_Some:
  "next_at h a i = Some y \<Longrightarrow> \<exists>h'. set_next h a i x = Some h'"
  by (auto simp: next_at_def set_next_def split: Option.bind_splits if_splits)

lemma set_next_shape: "set_next h a i x = Some h' \<Longrightarrow> same_shape h h'"
  by (auto simp: set_next_def same_shape_def deref_def nth_list_update
           split: Option.bind_splits if_splits)

lemma set_next_next_at:
  "set_next h a i x = Some h' \<Longrightarrow>
   next_at h' q j = (if q = a \<and> j = i then Some x else next_at h q j)"
  by (auto simp: set_next_def next_at_def deref_def nth_list_update
           split: Option.bind_splits if_splits)

lemma next_at_append:
  "q < length h \<Longrightarrow> next_at (h @ [x]) q j = next_at h q j"
  by (simp add: next_at_def deref_def nth_append)

lemma next_at_new:
  "next_at (h @ [Some \<lparr>key = k, val = v, level = replicate lv None\<rparr>]) (length h) j =
   (if j < lv then Some None else None)"
  by (simp add: next_at_def deref_def)

lemma next_at_bound: "next_at h q j = Some y \<Longrightarrow> q < length h"
  by (auto simp: next_at_def deref_def split: Option.bind_splits if_splits)

lemma next_at_deref: "next_at h q j = Some y \<Longrightarrow> \<exists>n. deref h q = Some n"
  by (auto simp: next_at_def split: Option.bind_splits if_splits)

section \<open>Chains as paths in the store\<close>

lemma path_append: "path h i p (xs @ ys) = (links h i p xs \<and> path h i (last (p # xs)) ys)"
  by (induction xs arbitrary: p) auto

lemma path_unique: "path h i p xs \<Longrightarrow> path h i p ys \<Longrightarrow> xs = ys"
proof (induction xs arbitrary: p ys)
  case Nil
  then show ?case by (cases ys) auto
next
  case (Cons x xs)
  then show ?case by (cases ys) auto
qed

lemma path_suffix: "path h i p (xs @ q # ys) \<Longrightarrow> path h i q ys"
  by (simp add: path_append)

lemma path_start_notin: "path h i p ns \<Longrightarrow> p \<notin> set ns"
proof
  assume p: "path h i p ns" and "p \<in> set ns"
  then obtain xs ys where ns: "ns = xs @ p # ys" by (auto simp: in_set_conv_decomp)
  with p have "path h i p ys" by (auto dest: path_suffix)
  with p have "ns = ys" by (rule path_unique)
  with ns show False by simp
qed

lemma path_distinct: "path h i p ns \<Longrightarrow> distinct (p # ns)"
proof (induction ns arbitrary: p)
  case Nil
  then show ?case by simp
next
  case (Cons q qs)
  from Cons.prems have "path h i q qs" by simp
  from Cons.IH [OF this] path_start_notin [OF Cons.prems] show ?case by simp
qed

lemma path_bound: "path h i p ns \<Longrightarrow> q \<in> set (p # ns) \<Longrightarrow> q < length h"
  by (induction ns arbitrary: p) (auto dest: next_at_bound)

lemma path_next_defined: "path h i p ns \<Longrightarrow> q \<in> set (p # ns) \<Longrightarrow> \<exists>y. next_at h q i = Some y"
  by (induction ns arbitrary: p) auto

lemma path_length: assumes "path h i p ns" shows "length ns < length h"
proof -
  have d: "distinct (p # ns)" using assms by (rule path_distinct)
  have "set (p # ns) \<subseteq> {..<length h}"
    using path_bound [OF assms] by auto
  then have "card (set (p # ns)) \<le> card {..<length h}"
    by (intro card_mono) auto
  with d show ?thesis by (simp add: distinct_card del: set_simps distinct.simps)
qed

lemma path_frame:
  "(\<And>q. q \<in> set (p # ns) \<Longrightarrow> next_at h' q i = next_at h q i) \<Longrightarrow>
   path h' i p ns = path h i p ns"
  by (induction ns arbitrary: p) auto

lemma links_frame:
  "(\<And>q. q \<in> set (butlast (p # ns)) \<Longrightarrow> next_at h' q i = next_at h q i) \<Longrightarrow>
   links h' i p ns = links h i p ns"
  by (induction ns arbitrary: p) auto

lemma chain_path: "path h i p ns \<Longrightarrow> length ns < f \<Longrightarrow> chain f h i p = Some ns"
proof (induction ns arbitrary: p f)
  case Nil
  then show ?case by (cases f) auto
next
  case (Cons q qs)
  then show ?case by (cases f) auto
qed

lemma path_chain: "chain f h i p = Some ns \<Longrightarrow> path h i p ns"
proof (induction f arbitrary: p ns)
  case 0
  then show ?case by simp
next
  case (Suc f)
  then show ?case
    by (auto split: Option.bind_splits option.splits)
qed

lemma level_chain_iff: "level_chain s i = Some ns \<longleftrightarrow> path (heap s) i (head s) ns"
  unfolding level_chain_def
  using chain_path path_chain path_length by blast

lemma advance_path:
  assumes "path h i p B" "length B < f"
    and "\<And>q n. q \<in> set B \<Longrightarrow> deref h q = Some n \<Longrightarrow> c n = C q"
  shows "advance f h i c p = Some (last (p # takeWhile C B))"
  using assms
proof (induction B arbitrary: p f)
  case Nil
  then show ?case by (cases f) auto
next
  case (Cons q qs)
  from Cons.prems obtain f' where f: "f = Suc f'" and l: "length qs < f'" by (cases f) auto
  from Cons.prems have nx: "next_at h p i = Some (Some q)" and pq: "path h i q qs" by auto
  from path_next_defined [OF pq, of q] obtain n where n: "deref h q = Some n"
    by (auto dest: next_at_deref)
  have cq: "c n = C q" using Cons.prems(3) [of q n] n by simp
  have ih: "advance f' h i c q = Some (last (q # takeWhile C qs))"
    using Cons.IH [OF pq l] Cons.prems(3) by auto
  show ?case using f nx n cq ih by simp
qed

section \<open>Lists: subsequences and positions\<close>

lemma subseq_set: "subseq xs ys \<Longrightarrow> set xs \<subseteq> set ys"
  by (induction rule: list_emb.induct) auto

lemma subseq_distinct: "subseq xs ys \<Longrightarrow> distinct ys \<Longrightarrow> distinct xs"
  by (induction rule: list_emb.induct) (auto dest: subseq_set)

lemma subseq_sorted_map: "subseq xs ys \<Longrightarrow> sorted (map f ys) \<Longrightarrow> sorted (map f xs)"
  by (induction rule: list_emb.induct) (auto dest: subseq_set)

lemma subseq_tl_self: "subseq (tl xs) xs"
  by (cases xs) auto

lemma subseq_tl: "subseq xs ys \<Longrightarrow> subseq (tl xs) (tl ys)"
proof (induction rule: list_emb.induct)
  case (list_emb_Cons xs ys y)
  have "subseq (tl xs) xs" by (rule subseq_tl_self)
  with list_emb_Cons.hyps(1) show ?case
    using subseq_order.order_trans by fastforce
qed auto

lemma before_after: "p \<in> set xs \<Longrightarrow> before p xs @ after p xs = xs"
  unfolding before_def after_def
  by (induction xs) auto

lemma before_after_split:
  "p \<notin> set u \<Longrightarrow> before p (u @ p # v) = u @ [p] \<and> after p (u @ p # v) = v"
proof -
  assume "p \<notin> set u"
  then have *: "\<And>x. x \<in> set u \<Longrightarrow> x \<noteq> p" by auto
  show ?thesis
    unfolding before_def after_def
    using * by (simp add: takeWhile_append2 dropWhile_append2)
qed

lemma before_hd [simp]: "before p (p # xs) = [p]" and after_hd [simp]: "after p (p # xs) = xs"
  by (simp_all add: before_def after_def)

lemma last_before [simp]: "last (before p xs) = p" and before_nonempty [simp]: "before p xs \<noteq> []"
  by (simp_all add: before_def)

lemma subseq_before_after:
  assumes "distinct ys" "subseq xs ys" "p \<in> set xs"
  shows "subseq (before p xs) (before p ys) \<and> subseq (after p xs) (after p ys)"
proof -
  from assms(3) obtain u v where xs: "xs = u @ p # v" and pu: "p \<notin> set u"
    by (auto dest: split_list_first)
  from assms(2) xs obtain y1 y2 where ys: "ys = y1 @ y2" and u: "subseq u y1" and pv: "subseq (p # v) y2"
    by (auto dest: list_emb_appendD)
  from pv obtain us vs where y2: "y2 = us @ p # vs" and v: "subseq v vs"
    by (auto dest: list_emb_ConsD)
  from assms(1) ys y2 have "p \<notin> set (y1 @ us)" by auto
  from before_after_split [OF this, of vs] ys y2
  have b: "before p ys = (y1 @ us) @ [p]" and a: "after p ys = vs" by simp_all
  from before_after_split [OF pu, of v] xs
  have b': "before p xs = u @ [p]" and a': "after p xs = v" by simp_all
  have "subseq u (y1 @ us)"
    using u by (rule subseq_rev_drop_many)
  then have "subseq (u @ [p]) ((y1 @ us) @ [p])"
    by (intro list_emb_append_mono) auto
  with b b' a a' v show ?thesis by simp
qed

text \<open>The position a walk stops at.\<close>

lemma walk_position:
  fixes P :: "'a \<Rightarrow> bool"
  assumes "distinct xs" "p \<in> set xs"
  defines "T \<equiv> takeWhile P (after p xs)"
  shows "before (last (p # T)) xs = before p xs @ T \<and>
         after (last (p # T)) xs = dropWhile P (after p xs)"
proof (cases "T = []")
  case True
  then have "dropWhile P (after p xs) = after p xs"
    unfolding T_def by (metis takeWhile_dropWhile_id append_Nil)
  with True show ?thesis by simp
next
  case False
  define q where "q = last T"
  define T0 where "T0 = butlast T"
  have T: "T = T0 @ [q]" using False by (simp add: q_def T0_def)
  have xs: "xs = before p xs @ T @ dropWhile P (after p xs)"
    using before_after [OF assms(2)] by (simp add: T_def)
  then have xs': "xs = (before p xs @ T0) @ q # dropWhile P (after p xs)"
    using T by simp
  have "distinct ((before p xs @ T0) @ q # dropWhile P (after p xs))"
    using assms(1) xs' by metis
  then have "q \<notin> set (before p xs @ T0)" by auto
  from before_after_split [OF this, of "dropWhile P (after p xs)"] xs'
  have "before q xs = (before p xs @ T0) @ [q]" "after q xs = dropWhile P (after p xs)"
    by metis+
  moreover have "last (p # T) = q" using False by (simp add: q_def)
  ultimately show ?thesis using T by simp
qed

lemma walk_from_head:
  assumes "distinct (hp # cs)" "p \<in> set (hp # cs)"
    and "\<forall>x \<in> set (tl (before p (hp # cs))). P x"
  shows "last (p # takeWhile P (after p (hp # cs))) = last (hp # takeWhile P cs)"
    and "tl (before p (hp # cs)) @ takeWhile P (after p (hp # cs)) = takeWhile P cs"
    and "dropWhile P (after p (hp # cs)) = dropWhile P cs"
proof -
  define A where "A = tl (before p (hp # cs))"
  define B where "B = after p (hp # cs)"
  have hd: "before p (hp # cs) = hp # A"
    unfolding A_def before_def by (cases "hp = p") auto
  have split: "hp # cs = (hp # A) @ B"
    using before_after [OF assms(2)] hd by (simp add: B_def)
  then have cs: "cs = A @ B" by simp
  have A: "\<forall>x \<in> set A. P x" using assms(3) by (simp add: A_def)
  have l: "last (hp # A) = p" using last_before [of p "hp # cs"] hd by simp
  have t: "A @ takeWhile P B = takeWhile P cs"
    using A unfolding cs by (simp add: takeWhile_append2)
  then show "tl (before p (hp # cs)) @ takeWhile P (after p (hp # cs)) = takeWhile P cs"
    unfolding A_def B_def .
  have "dropWhile P B = dropWhile P cs"
    using A unfolding cs by (simp add: dropWhile_append2)
  then show "dropWhile P (after p (hp # cs)) = dropWhile P cs"
    unfolding B_def .
  have "last (hp # takeWhile P cs) = last ((hp # A) @ takeWhile P B)"
    using t by simp
  also have "\<dots> = last (p # takeWhile P B)"
    using l by (cases "takeWhile P B = []") (simp_all)
  finally show "last (p # takeWhile P (after p (hp # cs))) = last (hp # takeWhile P cs)"
    unfolding B_def by simp
qed

lemma before_sorted_le:
  assumes "sorted (map f cs)" "distinct (hp # cs)" "p \<in> set cs" "x \<in> set (tl (before p (hp # cs)))"
  shows "f x \<le> f p"
proof -
  from assms(3) obtain u v where cs: "cs = u @ p # v" and pu: "p \<notin> set u"
    by (auto dest: split_list_first)
  have "p \<notin> set (hp # u)" using assms(2) cs pu by auto
  from before_after_split [OF this, of v] cs
  have "before p (hp # cs) = hp # u @ [p]" by simp
  with assms(4) have "x \<in> set u \<or> x = p" by auto
  with assms(1) cs show ?thesis by (auto simp: sorted_append)
qed

lemma rm1_subseq_self: "subseq (rm1 f K xs) xs"
  by (induction xs) auto

lemma rm1_subseq: "subseq xs ys \<Longrightarrow> subseq (rm1 f K xs) (rm1 f K ys)"
proof (induction rule: list_emb.induct)
  case (list_emb_Nil ys)
  then show ?case by simp
next
  case (list_emb_Cons xs ys y)
  have "subseq (rm1 f K xs) ys"
    using rm1_subseq_self list_emb_Cons.hyps subseq_order.order_trans by blast
  with list_emb_Cons show ?case by auto
next
  case (list_emb_Cons2 x y xs ys)
  then show ?case by auto
qed

lemma rm1_takeWhile:
  "rm1 f K xs = takeWhile (\<lambda>q. f q < K) xs @
     (case dropWhile (\<lambda>q. f q < K) xs of [] \<Rightarrow> [] | d # R \<Rightarrow> if f d = K then R else d # R)"
  by (induction xs) auto

section \<open>Well-formed containers\<close>

lemma chains_ok_mono: "chains_ok h hp n cs \<Longrightarrow> m \<le> n \<Longrightarrow> chains_ok h hp m cs"
  by (auto simp: chains_ok_def)

lemma chains_ok_path: "chains_ok h hp n cs \<Longrightarrow> i < n \<Longrightarrow> path h i hp (cs i)"
  by (simp add: chains_ok_def)

lemma chains_ok_sorted: "chains_ok h hp n cs \<Longrightarrow> i < n \<Longrightarrow> sorted (map (ikey h) (cs i))"
  by (simp add: chains_ok_def)

lemma chains_ok_subseq:
  assumes "chains_ok h hp n cs" "i < n" "j \<le> i"
  shows "subseq (cs i) (cs j)"
  using assms(3,2)
proof (induction i rule: dec_induct)
  case base
  then show ?case by simp
next
  case (step k)
  from step.prems have "Suc k < n" by simp
  with assms(1) have "subseq (cs (Suc k)) (cs k)" by (simp add: chains_ok_def)
  moreover from step have "subseq (cs k) (cs j)" by simp
  ultimately show ?case using subseq_order.order_trans by blast
qed

lemma chains_ok_mem:
  "chains_ok h hp n cs \<Longrightarrow> i < n \<Longrightarrow> j \<le> i \<Longrightarrow> p \<in> set (hp # cs i) \<Longrightarrow> p \<in> set (hp # cs j)"
  using chains_ok_subseq [of h hp n cs i j] subseq_set by fastforce

lemma path_after:
  assumes "path h i hp cs" "p \<in> set (hp # cs)"
  shows "path h i p (after p (hp # cs))"
    and "links h i hp (tl (before p (hp # cs)))"
proof -
  define A where "A = tl (before p (hp # cs))"
  have hd: "before p (hp # cs) = hp # A"
    unfolding A_def before_def by (cases "hp = p") auto
  have "hp # cs = (hp # A) @ after p (hp # cs)"
    using before_after [OF assms(2)] hd by simp
  then have cs: "cs = A @ after p (hp # cs)" by simp
  have l: "last (hp # A) = p" using last_before [of p "hp # cs"] hd by simp
  from assms(1) have "path h i hp (A @ after p (hp # cs))" using cs by simp
  then show "path h i p (after p (hp # cs))" "links h i hp (tl (before p (hp # cs)))"
    using l by (simp_all add: path_append A_def)
qed

lemma path_suffix_length:
  assumes "path h i hp cs" "p \<in> set (hp # cs)"
  shows "length (after p (hp # cs)) < length h"
  using path_length [OF path_after(1) [OF assms]] .

text \<open>One walk with a condition that is monotone in the key.\<close>

lemma walk_level:
  assumes "path h i hp cs" "sorted (map f cs)" "p \<in> set (hp # cs)" "p = hp \<or> C p"
    and mono: "\<And>x y. f x \<le> f y \<Longrightarrow> C y \<Longrightarrow> C x"
    and c: "\<And>q n. deref h q = Some n \<Longrightarrow> c n = C q"
  shows "advance (length h) h i c p = Some (last (hp # takeWhile C cs))"
proof -
  have d: "distinct (hp # cs)" using assms(1) by (rule path_distinct)
  have pre: "\<forall>x \<in> set (tl (before p (hp # cs))). C x"
  proof (cases "p = hp")
    case True
    then show ?thesis by simp
  next
    case False
    with assms(3,4) have p: "p \<in> set cs" "C p" by auto
    show ?thesis
      using before_sorted_le [OF assms(2) d p(1)] mono p(2) by blast
  qed
  have "advance (length h) h i c p = Some (last (p # takeWhile C (after p (hp # cs))))"
    using path_after(1) [OF assms(1,3)] path_suffix_length [OF assms(1,3)] c
    by (intro advance_path) auto
  with walk_from_head(1) [OF d assms(3) pre] show ?thesis by simp
qed

lemma last_takeWhile_mem: "last (hp # takeWhile C cs) \<in> set (hp # cs)"
proof (cases "takeWhile C cs = []")
  case True
  then show ?thesis by simp
next
  case False
  then have "last (takeWhile C cs) \<in> set (takeWhile C cs)" by (rule last_in_set)
  then have "last (takeWhile C cs) \<in> set cs \<and> C (last (takeWhile C cs))"
    by (rule set_takeWhileD)
  then show ?thesis using False by simp
qed

lemma last_takeWhile_sat: "last (hp # takeWhile C cs) = hp \<or> C (last (hp # takeWhile C cs))"
proof (cases "takeWhile C cs = []")
  case True
  then show ?thesis by simp
next
  case False
  then have "last (takeWhile C cs) \<in> set (takeWhile C cs)" by (rule last_in_set)
  then have "last (takeWhile C cs) \<in> set cs \<and> C (last (takeWhile C cs))"
    by (rule set_takeWhileD)
  then show ?thesis using False by simp
qed

lemma search_cond_ikey: "deref h q = Some n \<Longrightarrow> search_cond K n = (ikey h q \<le> sint K)"
  by (simp add: search_cond_def comparator_le ikey_def key_at_def)

lemma remove_cond_ikey: "deref h q = Some n \<Longrightarrow> remove_cond K n = (ikey h q < sint K)"
  by (simp add: remove_cond_def comparator_less ikey_def key_at_def)

lemma searchNode_levels_correct:
  assumes "chains_ok h hp n cs"
    and "\<forall>i<n. p \<in> set (hp # cs i)"
    and "p = hp \<or> ikey h p \<le> sint K"
  shows "searchNode_levels n h K p =
     Some (if n = 0 then p else last (hp # takeWhile (\<lambda>q. ikey h q \<le> sint K) (cs 0)))"
  using assms
proof (induction n arbitrary: p)
  case 0
  then show ?case by simp
next
  case (Suc n)
  let ?C = "\<lambda>q. ikey h q \<le> sint K"
  let ?p = "last (hp # takeWhile ?C (cs n))"
  have ok: "chains_ok h hp n cs" using Suc.prems(1) by (rule chains_ok_mono) simp
  have adv: "advance (length h) h n (search_cond K) p = Some ?p"
    using Suc.prems
    by (intro walk_level [where f = "ikey h"])
       (auto simp: chains_ok_path chains_ok_sorted search_cond_ikey)
  have mem: "?p \<in> set (hp # cs n)" by (rule last_takeWhile_mem)
  have "\<forall>i<n. ?p \<in> set (hp # cs i)"
    using chains_ok_mem [OF Suc.prems(1) _ _ mem] by simp
  from Suc.IH [OF ok this last_takeWhile_sat]
  show ?case using adv by (cases n) auto
qed

section \<open>The loop of remove\<close>

lemma distinct_last_butlast: "distinct xs \<Longrightarrow> xs \<noteq> [] \<Longrightarrow> last xs \<notin> set (butlast xs)"
  by (metis append_butlast_last_id distinct_append disjoint_iff list.set_intros(1))

lemma path_next_hd:
  "path h i p cs \<Longrightarrow> next_at h p i = Some (case cs of [] \<Rightarrow> None | q # _ \<Rightarrow> Some q)"
  by (cases cs) auto

lemma path_unlink:
  assumes "path h i hp (T @ d # R)" and "next_at h d i = Some nn"
    and "set_next h (last (hp # T)) i nn = Some h1"
  shows "path h1 i hp (T @ R)"
proof -
  let ?p = "last (hp # T)"
  have dist: "distinct (hp # T @ d # R)" using assms(1) by (rule path_distinct)
  from assms(1) have l: "links h i hp T" and pd: "path h i ?p (d # R)"
    by (simp_all add: path_append)
  then have pR: "path h i d R" by simp
  have nx: "\<And>q j. next_at h1 q j = (if q = ?p \<and> j = i then Some nn else next_at h q j)"
    using set_next_next_at [OF assms(3)] .
  have "?p \<notin> set (butlast (hp # T))"
    using distinct_last_butlast [of "hp # T"] dist by simp
  then have l1: "links h1 i hp T"
    using l by (subst links_frame [where h = h]) (auto simp: nx)
  have "?p \<in> set (hp # T)" by (rule last_in_set) simp
  then have pR': "?p \<notin> set R" using dist by auto
  have nn: "nn = (case R of [] \<Rightarrow> None | q # _ \<Rightarrow> Some q)"
    using path_next_hd [OF pR] assms(2) by simp
  have "path h1 i ?p R"
  proof (cases R)
    case Nil
    then show ?thesis using nn by (simp add: nx)
  next
    case (Cons r R')
    have "path h1 i r R' = path h i r R'"
      using pR' Cons by (intro path_frame) (auto simp: nx)
    with pR Cons nn show ?thesis by (simp add: nx)
  qed
  with l1 show ?thesis by (simp add: path_append)
qed

lemma first_eq_subseq_None:
  assumes "subseq xs ys" "sorted (map f ys)" "first_eq f K ys = None"
  shows "first_eq f K xs = None"
proof -
  have no: "\<forall>y \<in> set ys. f y \<noteq> K"
  proof
    fix y assume y: "y \<in> set ys"
    show "f y \<noteq> K"
    proof
      assume fy: "f y = K"
      let ?P = "\<lambda>q. f q < K"
      have "y \<in> set (dropWhile ?P ys)"
        using y fy by (metis (mono_tags, lifting) less_irrefl set_append set_takeWhileD
            takeWhile_dropWhile_id UnE)
      then obtain q R where D: "dropWhile ?P ys = q # R" and yq: "y = q \<or> y \<in> set R"
        by (cases "dropWhile ?P ys") auto
      have nq: "\<not> f q < K" using D by (metis hd_dropWhile list.sel(1) list.distinct(1))
      have "sorted (map f (takeWhile ?P ys @ q # R))"
        using assms(2) D by (metis takeWhile_dropWhile_id)
      then have "f q \<le> f y" using yq by (auto simp: sorted_append)
      with nq fy have "f q = K" by simp
      with D assms(3) show False by (simp add: first_eq_def)
    qed
  qed
  then have "\<forall>x \<in> set xs. f x \<noteq> K" using subseq_set [OF assms(1)] by auto
  then have "f q \<noteq> K" if "dropWhile (\<lambda>q. f q < K) xs = q # R" for q R
    using set_dropWhileD [of q "\<lambda>q. f q < K" xs] that by simp
  then show ?thesis
    by (simp add: first_eq_def split: list.split)
qed

lemma chains_ok_frame:
  assumes "chains_ok h hp n cs" "same_shape h h'"
    and "\<And>q j. j < n \<Longrightarrow> next_at h' q j = next_at h q j"
  shows "chains_ok h' hp n cs"
  using assms(1) assms(3) same_shape_ikey [OF assms(2)]
  unfolding chains_ok_def
  by (auto simp: path_frame [where h = h and h' = h'])

lemma rm1_first_eq:
  "rm1 f K cs = takeWhile (\<lambda>q. f q < K) cs @
     (case first_eq f K cs of None \<Rightarrow> dropWhile (\<lambda>q. f q < K) cs
      | Some q \<Rightarrow> tl (dropWhile (\<lambda>q. f q < K) cs))"
proof (cases "dropWhile (\<lambda>q. f q < K) cs")
  case Nil
  then show ?thesis
    by (simp add: rm1_takeWhile first_eq_def del: dropWhile_eq_Nil_conv)
next
  case (Cons q R)
  then show ?thesis
    by (simp add: rm1_takeWhile first_eq_def)
qed

lemma first_eq_Some:
  "first_eq f K cs = Some q \<Longrightarrow> f q = K \<and> (\<exists>R. dropWhile (\<lambda>q. f q < K) cs = q # R)"
  by (auto simp: first_eq_def split: list.splits if_splits)

text \<open>One pass of the loop of remove.\<close>

lemma remove_step:
  assumes "path h i hp cs" "sorted (map (ikey h) cs)" "p \<in> set (hp # cs)"
    and "p = hp \<or> ikey h p < sint K"
  shows "\<exists>h1. remove_levels (Suc i) h K p d v =
           remove_levels i h1 K (last (hp # takeWhile (\<lambda>q. ikey h q < sint K) cs))
             (case first_eq (ikey h) (sint K) cs of None \<Rightarrow> d | Some q \<Rightarrow> Some q)
             (case first_eq (ikey h) (sint K) cs of None \<Rightarrow> v | Some q \<Rightarrow> val_at h q) \<and>
         same_shape h h1 \<and> path h1 i hp (rm1 (ikey h) (sint K) cs) \<and>
         (\<forall>q j. j \<noteq> i \<longrightarrow> next_at h1 q j = next_at h q j) \<and>
         (first_eq (ikey h) (sint K) cs = None \<longrightarrow> h1 = h)"
proof -
  let ?C = "\<lambda>q. ikey h q < sint K"
  let ?T = "takeWhile ?C cs" and ?D = "dropWhile ?C cs"
  let ?p = "last (hp # ?T)"
  have adv: "advance (length h) h i (remove_cond K) p = Some ?p"
    using assms by (intro walk_level [where f = "ikey h"]) (auto simp: remove_cond_ikey)
  have pTD: "path h i hp (?T @ ?D)" using assms(1) by simp
  then have pD: "path h i ?p ?D" by (simp only: path_append)
  have nx: "next_at h ?p i = Some (case ?D of [] \<Rightarrow> None | q # _ \<Rightarrow> Some q)"
    using pD by (rule path_next_hd)
  show ?thesis
  proof (cases "first_eq (ikey h) (sint K) cs")
    case None
    have step: "remove_levels (Suc i) h K p d v = remove_levels i h K ?p d v"
    proof (cases ?D)
      case Nil
      with nx adv show ?thesis by simp
    next
      case (Cons q R)
      with pD have "path h i q R" by simp
      from path_next_defined [OF this, of q] obtain n where n: "deref h q = Some n"
        by (auto dest: next_at_deref)
      have "ikey h q \<noteq> sint K" using None Cons by (auto simp: first_eq_def split: if_splits)
      then have "comparator (key n) K \<noteq> 0"
        using n by (simp add: comparator_eq ikey_def key_at_def sint_eq_iff)
      with nx adv Cons n show ?thesis by simp
    qed
    have "rm1 (ikey h) (sint K) cs = cs" using None by (simp add: rm1_first_eq)
    with step None assms(1) show ?thesis by (intro exI [of _ h]) simp
  next
    case (Some q)
    from first_eq_Some [OF this] obtain R where kq: "ikey h q = sint K" and D: "?D = q # R"
      by auto
    with pD have pR: "path h i q R" by simp
    from path_next_defined [OF this, of q] obtain nn where nn: "next_at h q i = Some nn"
      by auto
    then obtain n where n: "deref h q = Some n" by (auto dest: next_at_deref)
    have c0: "comparator (key n) K = 0"
      using kq n by (simp add: comparator_eq ikey_def key_at_def sint_eq_iff)
    have vq: "val n = val_at h q" using n by (simp add: val_at_def)
    from nx D have nxp: "next_at h ?p i = Some (Some q)" by simp
    from set_next_Some [OF this] obtain h1 where h1: "set_next h ?p i nn = Some h1" by blast
    have step: "remove_levels (Suc i) h K p d v = remove_levels i h1 K ?p (Some q) (val_at h q)"
      using adv nxp n c0 nn h1 vq by simp
    have "path h i hp (?T @ q # R)" using pTD D by simp
    from path_unlink [OF this nn h1] have "path h1 i hp (?T @ R)" .
    moreover have "rm1 (ikey h) (sint K) cs = ?T @ R" using Some D by (simp add: rm1_first_eq)
    ultimately have p1: "path h1 i hp (rm1 (ikey h) (sint K) cs)" by simp
    show ?thesis
      using step Some p1 set_next_shape [OF h1] set_next_next_at [OF h1]
      by (intro exI [of _ h1]) simp
  qed
qed

lemma remove_levels_correct:
  assumes "chains_ok h hp n cs"
    and "\<forall>i<n. p \<in> set (hp # cs i)"
    and "p = hp \<or> ikey h p < sint K"
  shows "\<exists>h'. remove_levels n h K p d v =
            Some (h',
              (if n = 0 then d else case first_eq (ikey h) (sint K) (cs 0) of None \<Rightarrow> d | Some q \<Rightarrow> Some q),
              (if n = 0 then v else case first_eq (ikey h) (sint K) (cs 0) of None \<Rightarrow> v | Some q \<Rightarrow> val_at h q)) \<and>
          same_shape h h' \<and>
          (\<forall>i<n. path h' i hp (rm1 (ikey h) (sint K) (cs i))) \<and>
          (\<forall>q j. n \<le> j \<longrightarrow> next_at h' q j = next_at h q j) \<and>
          ((\<forall>i<n. first_eq (ikey h) (sint K) (cs i) = None) \<longrightarrow> h' = h)"
  using assms
proof (induction n arbitrary: h p d v)
  case 0
  then show ?case by simp
next
  case (Suc n)
  let ?f = "ikey h" and ?K = "sint K"
  let ?C = "\<lambda>q. ikey h q < sint K"
  let ?p = "last (hp # takeWhile ?C (cs n))"
  let ?d1 = "case first_eq ?f ?K (cs n) of None \<Rightarrow> d | Some q \<Rightarrow> Some q"
  let ?v1 = "case first_eq ?f ?K (cs n) of None \<Rightarrow> v | Some q \<Rightarrow> val_at h q"
  have pn: "path h n hp (cs n)" and sn: "sorted (map ?f (cs n))"
    using Suc.prems(1) by (simp_all add: chains_ok_def)
  from remove_step [OF pn sn _ Suc.prems(3), of d v] Suc.prems(2)
  obtain h1 where step: "remove_levels (Suc n) h K p d v = remove_levels n h1 K ?p ?d1 ?v1"
    and sh1: "same_shape h h1" and p1: "path h1 n hp (rm1 ?f ?K (cs n))"
    and fr1: "\<And>q j. j \<noteq> n \<Longrightarrow> next_at h1 q j = next_at h q j"
    and eq1: "first_eq ?f ?K (cs n) = None \<Longrightarrow> h1 = h"
    by auto
  have ok: "chains_ok h hp n cs" using Suc.prems(1) by (rule chains_ok_mono) simp
  have ok1: "chains_ok h1 hp n cs"
    using ok sh1 fr1 by (rule chains_ok_frame) simp
  have mem: "?p \<in> set (hp # cs n)" by (rule last_takeWhile_mem)
  have mem': "\<forall>i<n. ?p \<in> set (hp # cs i)"
    using chains_ok_mem [OF Suc.prems(1) _ _ mem] by simp
  have f1: "ikey h1 = ikey h" using sh1 by (rule same_shape_ikey)
  have v1: "val_at h1 = val_at h" using sh1 by (auto simp: same_shape_val_at)
  have sat: "?p = hp \<or> ikey h1 ?p < sint K"
    using last_takeWhile_sat [of hp ?C "cs n"] f1 by simp
  from Suc.IH [OF ok1 mem' sat, of ?d1 ?v1, unfolded f1 v1]
  obtain h' where
    res: "remove_levels n h1 K ?p ?d1 ?v1 =
            Some (h',
              (if n = 0 then ?d1 else case first_eq ?f ?K (cs 0) of None \<Rightarrow> ?d1 | Some q \<Rightarrow> Some q),
              (if n = 0 then ?v1 else case first_eq ?f ?K (cs 0) of None \<Rightarrow> ?v1 | Some q \<Rightarrow> val_at h q))"
    and sh': "same_shape h1 h'"
    and ps: "\<forall>i<n. path h' i hp (rm1 ?f ?K (cs i))"
    and fr: "\<forall>q j. n \<le> j \<longrightarrow> next_at h' q j = next_at h1 q j"
    and eq: "(\<forall>i<n. first_eq ?f ?K (cs i) = None) \<longrightarrow> h' = h1"
    by auto
  have none: "first_eq ?f ?K (cs n) = None" if "first_eq ?f ?K (cs 0) = None"
    using first_eq_subseq_None [OF chains_ok_subseq [OF Suc.prems(1), of n 0] _ that]
      chains_ok_sorted [OF Suc.prems(1), of 0] by simp
  have dv: "(if n = 0 then ?d1 else case first_eq ?f ?K (cs 0) of None \<Rightarrow> ?d1 | Some q \<Rightarrow> Some q)
              = (case first_eq ?f ?K (cs 0) of None \<Rightarrow> d | Some q \<Rightarrow> Some q)"
       "(if n = 0 then ?v1 else case first_eq ?f ?K (cs 0) of None \<Rightarrow> ?v1 | Some q \<Rightarrow> val_at h q)
              = (case first_eq ?f ?K (cs 0) of None \<Rightarrow> v | Some q \<Rightarrow> val_at h q)"
    using none by (auto split: option.splits)
  have pn': "path h' n hp (rm1 ?f ?K (cs n))"
    using p1 fr by (subst path_frame [where h = h1]) auto
  have "\<forall>i<Suc n. path h' i hp (rm1 ?f ?K (cs i))"
    using ps pn' by (auto simp: less_Suc_eq)
  moreover have "\<forall>q j. Suc n \<le> j \<longrightarrow> next_at h' q j = next_at h q j"
    using fr fr1 by auto
  moreover have "same_shape h h'" using sh1 sh' by (rule same_shape_trans)
  moreover have "(\<forall>i<Suc n. first_eq ?f ?K (cs i) = None) \<longrightarrow> h' = h"
    using eq eq1 by auto
  ultimately show ?case
    using step res dv by (intro exI [of _ h']) (simp del: remove_levels.simps)
qed

section \<open>The loop of insert\<close>

lemma insert_cond_lt: "deref h q = Some n \<Longrightarrow> insert_cond k v n = lt_at h k v q"
  by (auto simp: insert_cond_def lt_at_def comparator_less comparator_eq ikey_def key_at_def
      val_at_def sint_eq_iff)

lemma same_shape_lt_at: "same_shape h h' \<Longrightarrow> lt_at h' k v = lt_at h k v"
  by (rule ext) (simp add: lt_at_def same_shape_ikey same_shape_val_at)

lemma path_splice:
  assumes "path h i hp (A @ D)" and "node \<notin> set (hp # A @ D)"
    and "next_at h (last (hp # A)) i = Some nx"
    and "set_next h node i nx = Some h1"
    and "set_next h1 (last (hp # A)) i (Some node) = Some h2"
  shows "path h2 i hp (A @ node # D)"
proof -
  let ?p = "last (hp # A)"
  have dist: "distinct (hp # A @ D)" using assms(1) by (rule path_distinct)
  from assms(1) have l: "links h i hp A" and pD: "path h i ?p D"
    by (simp_all add: path_append)
  have pm: "?p \<in> set (hp # A)" by (rule last_in_set) simp
  then have pn: "?p \<noteq> node" using assms(2) by auto
  have nx: "\<And>q j. next_at h2 q j =
      (if q = ?p \<and> j = i then Some (Some node)
       else if q = node \<and> j = i then Some nx else next_at h q j)"
    using set_next_next_at [OF assms(4)] set_next_next_at [OF assms(5)] by simp
  have "?p \<notin> set (butlast (hp # A))"
    using distinct_last_butlast [of "hp # A"] dist by simp
  moreover have "node \<notin> set (butlast (hp # A))"
    using assms(2) by (auto dest: in_set_butlastD)
  ultimately have l2: "links h2 i hp A"
    using l by (subst links_frame [where h = h]) (auto simp: nx)
  have pD': "?p \<notin> set D" using dist pm by auto
  have nxD: "nx = (case D of [] \<Rightarrow> None | q # _ \<Rightarrow> Some q)"
    using path_next_hd [OF pD] assms(3) by simp
  have "path h2 i node D"
  proof (cases D)
    case Nil
    then show ?thesis using nxD pn by (simp add: nx)
  next
    case (Cons r R)
    have "path h2 i r R = path h i r R"
      using pD' assms(2) Cons by (intro path_frame) (auto simp: nx)
    with pD Cons nxD pn show ?thesis by (simp add: nx)
  qed
  then have "path h2 i ?p (node # D)" by (simp add: nx)
  with l2 show ?thesis by (simp add: path_append)
qed

lemma ins_at_split:
  assumes "distinct (hp # cs)" "p \<in> set (hp # cs)"
  shows "cs = (tl (before p (hp # cs)) @ takeWhile P (after p (hp # cs))) @ dropWhile P (after p (hp # cs))"
    and "last (hp # tl (before p (hp # cs)) @ takeWhile P (after p (hp # cs))) =
         last (p # takeWhile P (after p (hp # cs)))"
proof -
  define A where "A = tl (before p (hp # cs))"
  have hd: "before p (hp # cs) = hp # A"
    unfolding A_def before_def by (cases "hp = p") auto
  have "hp # cs = (hp # A) @ after p (hp # cs)"
    using before_after [OF assms(2)] hd by simp
  then show "cs = (tl (before p (hp # cs)) @ takeWhile P (after p (hp # cs))) @ dropWhile P (after p (hp # cs))"
    by (simp add: A_def)
  have l: "last (hp # A) = p" using last_before [of p "hp # cs"] hd by simp
  then show "last (hp # tl (before p (hp # cs)) @ takeWhile P (after p (hp # cs))) =
         last (p # takeWhile P (after p (hp # cs)))"
    unfolding A_def [symmetric]
    by (cases "takeWhile P (after p (hp # cs)) = []") (simp_all)
qed

text \<open>One pass of the loop of insert.\<close>

lemma insert_step:
  assumes "path h i hp cs" "p \<in> set (hp # cs)" "node \<notin> set (hp # cs)"
    and "i < lv \<Longrightarrow> \<exists>y. next_at h node i = Some y"
  shows "\<exists>h1. insert_levels (Suc i) h lv k v node p =
           insert_levels i h1 lv k v node
             (last (p # takeWhile (lt_at h k v) (after p (hp # cs)))) \<and>
         same_shape h h1 \<and>
         path h1 i hp (if i < lv then ins_at (lt_at h k v) node p (hp # cs) else cs) \<and>
         (\<forall>q j. j \<noteq> i \<longrightarrow> next_at h1 q j = next_at h q j)"
proof -
  let ?P = "lt_at h k v"
  let ?B = "after p (hp # cs)"
  let ?T = "takeWhile ?P ?B" and ?D = "dropWhile ?P ?B"
  let ?A = "tl (before p (hp # cs)) @ ?T"
  let ?p = "last (p # ?T)"
  have dist: "distinct (hp # cs)" using assms(1) by (rule path_distinct)
  have adv: "advance (length h) h i (insert_cond k v) p = Some ?p"
    using path_after(1) [OF assms(1,2)] path_suffix_length [OF assms(1,2)]
    by (intro advance_path) (auto simp: insert_cond_lt)
  show ?thesis
  proof (cases "i < lv")
    case False
    with adv assms(1) show ?thesis by (intro exI [of _ h]) simp
  next
    case True
    have cs: "cs = ?A @ ?D" and lp: "last (hp # ?A) = ?p"
      using ins_at_split [OF dist assms(2), of ?P] by simp_all
    have pAD: "path h i hp (?A @ ?D)" using assms(1) cs by simp
    then have "path h i ?p ?D" using lp by (simp only: path_append)
    then obtain nx where nx: "next_at h ?p i = Some nx" by (auto dest: path_next_hd)
    from assms(4) True obtain y where "next_at h node i = Some y" by auto
    from set_next_Some [OF this] obtain h1 where h1: "set_next h node i nx = Some h1" by blast
    have "next_at h1 ?p i \<noteq> None"
      using nx same_shape_next_at_None [OF set_next_shape [OF h1], of ?p i] by simp
    then obtain y' where "next_at h1 ?p i = Some y'" by auto
    from set_next_Some [OF this] obtain h2 where h2: "set_next h1 ?p i (Some node) = Some h2"
      by blast
    have step: "insert_levels (Suc i) h lv k v node p = insert_levels i h2 lv k v node ?p"
      using adv True nx h1 h2 by simp
    have "node \<notin> set (hp # ?A @ ?D)" using assms(3) cs by simp
    from path_splice [OF pAD this] nx h1 h2 lp
    have "path h2 i hp (?A @ node # ?D)" by simp
    then have p2: "path h2 i hp (ins_at ?P node p (hp # cs))" by (simp add: ins_at_def)
    have sh: "same_shape h h2"
      using set_next_shape [OF h1] set_next_shape [OF h2] by (rule same_shape_trans)
    have fr: "\<forall>q j. j \<noteq> i \<longrightarrow> next_at h2 q j = next_at h q j"
      using set_next_next_at [OF h1] set_next_next_at [OF h2] by simp
    show ?thesis
      using step sh p2 fr True by (intro exI [of _ h2]) simp
  qed
qed

lemma ins_at_placed:
  assumes "distinct (hp # cs)" "p \<in> set (hp # cs)" "p = hp \<or> P p"
  shows "placed P node cs (ins_at P node p (hp # cs))"
proof -
  let ?B = "after p (hp # cs)"
  let ?T = "takeWhile P ?B" and ?D = "dropWhile P ?B"
  let ?X = "tl (before p (hp # cs)) @ ?T"
  have cs: "cs = ?X @ ?D" and l: "last (hp # ?X) = last (p # ?T)"
    using ins_at_split [OF assms(1,2), of P] by simp_all
  have X: "?X = [] \<or> P (last ?X)"
  proof (cases "?T = []")
    case True
    show ?thesis
    proof (cases "p = hp")
      case True
      then show ?thesis using \<open>?T = []\<close> by simp
    next
      case False
      with assms(3) have "P p" by simp
      with l True show ?thesis by (cases "?X = []") auto
    qed
  next
    case False
    then have "last ?T \<in> set ?T" by (rule last_in_set)
    then have "P (last ?T)" by (auto dest: set_takeWhileD)
    with False show ?thesis by simp
  qed
  have D: "?D = [] \<or> \<not> P (hd ?D)"
    by (metis hd_dropWhile)
  show ?thesis
    unfolding placed_def
    using cs X D by (intro exI [of _ ?X] exI [of _ ?D]) (simp add: ins_at_def)
qed

lemma placed_subseq: "placed P node cs cs' \<Longrightarrow> subseq cs cs'"
  by (auto simp: placed_def intro!: list_emb_append_mono)

lemma sorted_last_le: "sorted (map f X) \<Longrightarrow> x \<in> set X \<Longrightarrow> f x \<le> f (last X)"
  by (induction X) (auto split: if_splits)

lemma sorted_hd_le: "sorted (map f Y) \<Longrightarrow> y \<in> set Y \<Longrightarrow> f (hd Y) \<le> f y"
  by (cases Y) auto

lemma placed_sorted:
  assumes "placed P node cs cs'" "sorted (map f cs)"
    and "\<And>x. P x \<Longrightarrow> f x \<le> f node" and "\<And>x. \<not> P x \<Longrightarrow> f node \<le> f x"
  shows "sorted (map f cs')"
proof -
  from assms(1) obtain X Y where cs: "cs = X @ Y" and cs': "cs' = X @ node # Y"
    and X: "X = [] \<or> P (last X)" and Y: "Y = [] \<or> \<not> P (hd Y)"
    by (auto simp: placed_def)
  have sX: "sorted (map f X)" and sY: "sorted (map f Y)"
    using assms(2) cs by (simp_all add: sorted_append)
  have 1: "f x \<le> f node" if "x \<in> set X" for x
  proof -
    from that X have "P (last X)" by auto
    then have "f (last X) \<le> f node" by (rule assms(3))
    with sorted_last_le [OF sX that] show ?thesis by simp
  qed
  have 2: "f node \<le> f y" if "y \<in> set Y" for y
  proof -
    from that Y have "\<not> P (hd Y)" by auto
    then have "f node \<le> f (hd Y)" by (rule assms(4))
    with sorted_hd_le [OF sY that] show ?thesis by simp
  qed
  show ?thesis
    using assms(2) 1 2 unfolding cs cs' by (auto simp: sorted_append)
qed

lemma subseq_skip_prefix:
  assumes "subseq D (T @ D')" "D = [] \<or> \<not> P (hd D)" "\<forall>t \<in> set T. P t"
  shows "subseq D D'"
  using assms
proof (induction T)
  case Nil
  then show ?case by simp
next
  case (Cons t T)
  show ?case
  proof (cases D)
    case Nil
    then show ?thesis by simp
  next
    case (Cons d R)
    with Cons.prems have "d \<noteq> t" by auto
    with Cons.prems(1) Cons have "subseq D (T @ D')" by auto
    with Cons.IH Cons.prems show ?thesis by simp
  qed
qed

lemma ins_at_subseq:
  assumes "distinct (hp # ys)" "subseq xs ys" "p \<in> set (hp # xs)"
  shows "subseq (ins_at P node p (hp # xs))
           (ins_at P node (last (p # takeWhile P (after p (hp # xs)))) (hp # ys))"
proof -
  let ?fx = "hp # xs" and ?fy = "hp # ys"
  let ?T = "takeWhile P (after p ?fx)" and ?D = "dropWhile P (after p ?fx)"
  define q where "q = last (p # ?T)"
  let ?T' = "takeWhile P (after q ?fy)" and ?D' = "dropWhile P (after q ?fy)"
  have sub: "subseq ?fx ?fy" using assms(2) by simp
  have dx: "distinct ?fx" using sub assms(1) by (rule subseq_distinct)
  from walk_position [OF dx assms(3), of P]
  have b: "before q ?fx = before p ?fx @ ?T" and a: "after q ?fx = ?D"
    unfolding q_def by simp_all
  have "q \<in> set (p # ?T)" unfolding q_def by (rule last_in_set) simp
  then have "q = p \<or> q \<in> set (after p ?fx)" by (auto dest: set_takeWhileD)
  moreover have "set (after p ?fx) \<subseteq> set ?fx"
    using before_after [OF assms(3)] by (metis set_append Un_upper2)
  ultimately have pm: "q \<in> set ?fx" using assms(3) by auto
  from subseq_before_after [OF assms(1) sub pm]
  have sb: "subseq (before q ?fx) (before q ?fy)" and sa: "subseq (after q ?fx) (after q ?fy)"
    by simp_all
  have "subseq ?D (?T' @ ?D')" using sa a by simp
  moreover have "?D = [] \<or> \<not> P (hd ?D)" by (metis hd_dropWhile)
  moreover have "\<forall>t \<in> set ?T'. P t" by (auto dest: set_takeWhileD)
  ultimately have sD: "subseq ?D ?D'" by (rule subseq_skip_prefix)
  have "subseq (tl (before q ?fx)) (tl (before q ?fy))" using sb by (rule subseq_tl)
  then have "subseq (tl (before q ?fx)) (tl (before q ?fy) @ ?T')"
    by (rule subseq_rev_drop_many)
  moreover have "tl (before q ?fx) = tl (before p ?fx) @ ?T"
    using b by simp
  ultimately have sA: "subseq (tl (before p ?fx) @ ?T) (tl (before q ?fy) @ ?T')" by simp
  have "subseq ((tl (before p ?fx) @ ?T) @ node # ?D) ((tl (before q ?fy) @ ?T') @ node # ?D')"
    by (rule list_emb_append_mono [OF sA]) (simp add: sD)
  then have "subseq (ins_at P node p ?fx) (ins_at P node q ?fy)"
    by (simp add: ins_at_def)
  then show ?thesis unfolding q_def .
qed

lemma walk_mem:
  assumes "p \<in> set fc"
  shows "last (p # takeWhile P (after p fc)) \<in> set fc"
proof -
  have "last (p # takeWhile P (after p fc)) \<in> set (p # takeWhile P (after p fc))"
    by (rule last_in_set) simp
  then have "last (p # takeWhile P (after p fc)) = p \<or>
      last (p # takeWhile P (after p fc)) \<in> set (after p fc)"
    by (auto dest: set_takeWhileD)
  moreover have "set (after p fc) \<subseteq> set fc"
    using before_after [OF assms] by (metis set_append Un_upper2)
  ultimately show ?thesis using assms by auto
qed

lemma walk_sat:
  assumes "p = hp \<or> P p"
  shows "last (p # takeWhile P B) = hp \<or> P (last (p # takeWhile P B))"
proof (cases "takeWhile P B = []")
  case True
  with assms show ?thesis by simp
next
  case False
  then have "last (takeWhile P B) \<in> set (takeWhile P B)" by (rule last_in_set)
  then have "P (last (takeWhile P B))" by (auto dest: set_takeWhileD)
  with False show ?thesis by simp
qed

lemma lt_at_le: "lt_at h k v x \<Longrightarrow> ikey h x \<le> sint k"
  and not_lt_at_ge: "\<not> lt_at h k v x \<Longrightarrow> sint k \<le> ikey h x"
  by (auto simp: lt_at_def)

lemma insert_levels_correct:
  assumes "chains_ok h hp n cs"
    and "\<forall>i<n. p \<in> set (hp # cs i)"
    and "p = hp \<or> lt_at h k v p"
    and "\<forall>i<n. node \<notin> set (hp # cs i)"
    and "\<forall>i<lv. \<exists>y. next_at h node i = Some y"
    and "ikey h node = sint k"
  shows "\<exists>h' cs'. insert_levels n h lv k v node p = Some h' \<and> same_shape h h' \<and>
           chains_ok h' hp n cs' \<and>
           (\<forall>i<n. if i < lv then placed (lt_at h k v) node (cs i) (cs' i) else cs' i = cs i) \<and>
           (\<forall>m. n = Suc m \<longrightarrow> m < lv \<longrightarrow> cs' m = ins_at (lt_at h k v) node p (hp # cs m)) \<and>
           (\<forall>q j. n \<le> j \<longrightarrow> next_at h' q j = next_at h q j)"
  using assms
proof (induction n arbitrary: h p)
  case 0
  then show ?case by (simp add: chains_ok_def)
next
  case (Suc n)
  let ?P = "lt_at h k v"
  define q where "q = last (p # takeWhile ?P (after p (hp # cs n)))"
  define cn where "cn = (if n < lv then ins_at ?P node p (hp # cs n) else cs n)"
  have pn: "path h n hp (cs n)" and sn: "sorted (map (ikey h) (cs n))"
    using Suc.prems(1) by (simp_all add: chains_ok_def)
  have dn: "distinct (hp # cs n)" using pn by (rule path_distinct)
  have memn: "p \<in> set (hp # cs n)" using Suc.prems(2) by blast
  have freshn: "node \<notin> set (hp # cs n)" using Suc.prems(4) by blast
  from insert_step [OF pn memn freshn, of lv k v] Suc.prems(5)
  obtain h1 where step: "insert_levels (Suc n) h lv k v node p = insert_levels n h1 lv k v node q"
    and sh1: "same_shape h h1" and p1: "path h1 n hp cn"
    and fr1: "\<And>x j. j \<noteq> n \<Longrightarrow> next_at h1 x j = next_at h x j"
    unfolding q_def cn_def by auto
  have P1: "lt_at h1 k v = ?P" using sh1 by (rule same_shape_lt_at)
  have f1: "ikey h1 = ikey h" using sh1 by (rule same_shape_ikey)
  have ok: "chains_ok h hp n cs" using Suc.prems(1) by (rule chains_ok_mono) simp
  have ok1: "chains_ok h1 hp n cs"
    using ok sh1 fr1 by (rule chains_ok_frame) simp
  have qm: "q \<in> set (hp # cs n)" unfolding q_def using memn by (rule walk_mem)
  have mem': "\<forall>i<n. q \<in> set (hp # cs i)"
    using chains_ok_mem [OF Suc.prems(1) _ _ qm] by simp
  have sat': "q = hp \<or> lt_at h1 k v q"
    unfolding q_def P1 using Suc.prems(3) by (rule walk_sat)
  have fresh': "\<forall>i<n. node \<notin> set (hp # cs i)" using Suc.prems(4) less_SucI by blast
  have live': "\<forall>i<lv. \<exists>y. next_at h1 node i = Some y"
    using Suc.prems(5) same_shape_next_at_None [OF sh1, of node] by (metis not_Some_eq)
  have nk': "ikey h1 node = sint k" using Suc.prems(6) f1 by simp
  from Suc.IH [OF ok1 mem' sat' fresh' live' nk', unfolded P1]
  obtain h' cs'' where res: "insert_levels n h1 lv k v node q = Some h'"
    and sh': "same_shape h1 h'"
    and ok': "chains_ok h' hp n cs''"
    and pl: "\<forall>i<n. if i < lv then placed ?P node (cs i) (cs'' i) else cs'' i = cs i"
    and top: "\<forall>m. n = Suc m \<longrightarrow> m < lv \<longrightarrow> cs'' m = ins_at ?P node q (hp # cs m)"
    and fr: "\<forall>x j. n \<le> j \<longrightarrow> next_at h' x j = next_at h1 x j"
    by blast
  define cs' where "cs' = cs''(n := cn)"
  have sh: "same_shape h h'" using sh1 sh' by (rule same_shape_trans)
  have f': "ikey h' = ikey h" using sh by (rule same_shape_ikey)
  have pln: "n < lv \<Longrightarrow> placed ?P node (cs n) cn"
    unfolding cn_def
    using ins_at_placed [where P = ?P and node = node, OF dn memn Suc.prems(3)] by simp
  have pn': "path h' n hp cn"
    using p1 fr by (subst path_frame [where h = h1]) auto
  have sn': "sorted (map (ikey h') cn)"
  proof (cases "n < lv")
    case True
    show ?thesis
      unfolding f'
      using pln [OF True] sn
      by (rule placed_sorted) (auto simp: Suc.prems(6) dest: lt_at_le not_lt_at_ge)
  next
    case False
    then show ?thesis using sn by (simp add: cn_def f')
  qed
  have sub: "subseq cn (cs'' m)" if n: "n = Suc m" for m
  proof -
    have sm: "subseq (cs n) (cs m)"
      using chains_ok_subseq [OF Suc.prems(1), of n m] n by simp
    have dm: "distinct (hp # cs m)"
      using chains_ok_path [OF Suc.prems(1), of m] n by (intro path_distinct) simp
    have base: "subseq (cs m) (cs'' m)"
      using pl n by (cases "m < lv") (auto dest: placed_subseq spec [of _ m])
    show ?thesis
    proof (cases "n < lv")
      case True
      then have "m < lv" using n by simp
      with top n have "cs'' m = ins_at ?P node q (hp # cs m)" by simp
      with ins_at_subseq [OF dm sm memn, of ?P node] True show ?thesis
        by (simp add: cn_def q_def)
    next
      case False
      then have "cn = cs n" by (simp add: cn_def)
      with sm base show ?thesis using subseq_order.order_trans by metis
    qed
  qed
  have ok'': "chains_ok h' hp (Suc n) cs'"
    unfolding chains_ok_def
  proof (intro conjI allI impI)
    fix i assume "i < Suc n"
    then show "path h' i hp (cs' i)"
      using ok' pn' by (cases "i = n") (auto simp: cs'_def chains_ok_def)
  next
    fix i assume "i < Suc n"
    then show "sorted (map (ikey h') (cs' i))"
      using ok' sn' by (cases "i = n") (auto simp: cs'_def chains_ok_def)
  next
    fix i assume i: "Suc i < Suc n"
    show "subseq (cs' (Suc i)) (cs' i)"
    proof (cases "Suc i = n")
      case True
      with sub [of i] i show ?thesis by (simp add: cs'_def)
    next
      case False
      with i ok' show ?thesis by (simp add: cs'_def chains_ok_def)
    qed
  qed
  have pl': "\<forall>i<Suc n. if i < lv then placed ?P node (cs i) (cs' i) else cs' i = cs i"
    using pl pln by (auto simp: cs'_def cn_def less_Suc_eq)
  have top': "\<forall>m. Suc n = Suc m \<longrightarrow> m < lv \<longrightarrow> cs' m = ins_at ?P node p (hp # cs m)"
    by (simp add: cs'_def cn_def)
  have fr': "\<forall>x j. Suc n \<le> j \<longrightarrow> next_at h' x j = next_at h x j"
    using fr fr1 by auto
  show ?case
    using step res sh ok'' pl' top' fr'
    by (intro exI [of _ h'] exI [of _ cs']) (simp del: insert_levels.simps)
qed

section \<open>The loops of clear\<close>

lemma delete_node_Some:
  "deref h d = Some n \<Longrightarrow> delete_node h (Some d) = Some (h[d := None])"
  by (simp add: delete_node_def)

lemma next_at_delete: "next_at (h[d := None]) q j = (if q = d then None else next_at h q j)"
  by (auto simp: next_at_def deref_def)

lemma key_at_delete: "q \<noteq> d \<Longrightarrow> key_at (h[d := None]) q = key_at h q"
  and val_at_delete: "q \<noteq> d \<Longrightarrow> val_at (h[d := None]) q = val_at h q"
  by (auto simp: key_at_def val_at_def deref_def)

lemma path_delete: "d \<notin> set (p # ns) \<Longrightarrow> path (h[d := None]) i p ns = path h i p ns"
  by (intro path_frame) (auto simp: next_at_delete)

lemma clear_levels_correct:
  assumes "\<forall>j. i \<le> j \<and> j < i + n \<longrightarrow> path h j hp (cs j)"
  shows "\<exists>h'. clear_levels n i h hp = Some h' \<and> same_shape h h' \<and>
        (\<forall>j. i \<le> j \<and> j < i + n \<longrightarrow> path h' j hp (tl (cs j))) \<and>
        (\<forall>q j. j < i \<or> i + n \<le> j \<or> q \<noteq> hp \<longrightarrow> next_at h' q j = next_at h q j)"
  using assms
proof (induction n arbitrary: i h)
  case 0
  then show ?case by auto
next
  case (Suc n)
  have pi: "path h i hp (cs i)" using Suc.prems by simp
  have "\<exists>h1. clear_levels (Suc n) i h hp = clear_levels n (Suc i) h1 hp \<and> same_shape h h1 \<and>
      path h1 i hp (tl (cs i)) \<and> (\<forall>q j. j \<noteq> i \<or> q \<noteq> hp \<longrightarrow> next_at h1 q j = next_at h q j)"
  proof (cases "cs i")
    case Nil
    with pi show ?thesis by (intro exI [of _ h]) simp
  next
    case (Cons q R)
    with pi have nx: "next_at h hp i = Some (Some q)" and pR: "path h i q R" by simp_all
    from path_next_defined [OF pR, of q] obtain nn where nn: "next_at h q i = Some nn" by auto
    from set_next_Some [OF nx] obtain h1 where h1: "set_next h hp i nn = Some h1" by blast
    have "path h i hp ([] @ q # R)" using pi Cons by simp
    from path_unlink [OF this nn] h1 have "path h1 i hp R" by simp
    then show ?thesis
      using nx nn h1 Cons set_next_shape [OF h1] set_next_next_at [OF h1]
      by (intro exI [of _ h1]) auto
  qed
  then obtain h1 where step: "clear_levels (Suc n) i h hp = clear_levels n (Suc i) h1 hp"
    and sh1: "same_shape h h1" and p1: "path h1 i hp (tl (cs i))"
    and fr1: "\<And>q j. j \<noteq> i \<or> q \<noteq> hp \<Longrightarrow> next_at h1 q j = next_at h q j"
    by blast
  have "\<forall>j. Suc i \<le> j \<and> j < Suc i + n \<longrightarrow> path h1 j hp (cs j)"
  proof (intro allI impI)
    fix j assume j: "Suc i \<le> j \<and> j < Suc i + n"
    then have "path h j hp (cs j)" using Suc.prems by simp
    moreover have "path h1 j hp (cs j) = path h j hp (cs j)"
      using j by (intro path_frame fr1) simp
    ultimately show "path h1 j hp (cs j)" by simp
  qed
  from Suc.IH [OF this]
  obtain h' where res: "clear_levels n (Suc i) h1 hp = Some h'" and sh': "same_shape h1 h'"
    and ps: "\<forall>j. Suc i \<le> j \<and> j < Suc i + n \<longrightarrow> path h' j hp (tl (cs j))"
    and fr: "\<forall>q j. j < Suc i \<or> Suc i + n \<le> j \<or> q \<noteq> hp \<longrightarrow> next_at h' q j = next_at h1 q j"
    by blast
  have pi': "path h' i hp (tl (cs i))"
    using p1 fr by (subst path_frame [where h = h1]) auto
  have "\<forall>j. i \<le> j \<and> j < i + Suc n \<longrightarrow> path h' j hp (tl (cs j))"
  proof (intro allI impI)
    fix j assume "i \<le> j \<and> j < i + Suc n"
    then have "j = i \<or> (Suc i \<le> j \<and> j < Suc i + n)" by auto
    then show "path h' j hp (tl (cs j))" using pi' ps by auto
  qed
  moreover have "\<forall>q j. j < i \<or> i + Suc n \<le> j \<or> q \<noteq> hp \<longrightarrow> next_at h' q j = next_at h q j"
  proof (intro allI impI)
    fix q j assume a: "j < i \<or> i + Suc n \<le> j \<or> q \<noteq> hp"
    then have "next_at h' q j = next_at h1 q j" using fr by auto
    also have "\<dots> = next_at h q j" using a by (intro fr1) auto
    finally show "next_at h' q j = next_at h q j" .
  qed
  moreover have "same_shape h h'" using sh1 sh' by (rule same_shape_trans)
  ultimately show ?case
    using step res by (intro exI [of _ h']) (simp del: clear_levels.simps)
qed

lemma clear_loop_correct:
  assumes "path h 0 hp (cs 0)"
    and "\<forall>j<m. path h j hp (cs j) \<and> subseq (cs j) (cs 0)"
    and "m = 0 \<longrightarrow> cs 0 = []"
    and "length (cs 0) < fuel"
  shows "\<exists>h'. clear_loop fuel m hp h = Some h' \<and> length h' = length h \<and>
        path h' 0 hp [] \<and> (\<forall>j<m. path h' j hp []) \<and>
        (\<forall>j. m \<le> j \<longrightarrow> next_at h' hp j = next_at h hp j) \<and>
        key_at h' hp = key_at h hp \<and> val_at h' hp = val_at h hp \<and>
        (cs 0 = [] \<longrightarrow> h' = h)"
  using assms
proof (induction fuel arbitrary: h cs)
  case 0
  then show ?case by simp
next
  case (Suc fuel)
  show ?case
  proof (cases "cs 0")
    case Nil
    have "\<forall>j<m. cs j = []" using Suc.prems(2) Nil by auto
    with Suc.prems Nil show ?thesis by (intro exI [of _ h]) auto
  next
    case (Cons d R)
    with Suc.prems have m: "0 < m" by auto
    from Suc.prems(1) Cons have nx: "next_at h hp 0 = Some (Some d)" and pR: "path h 0 d R"
      by simp_all
    have dist: "distinct (hp # d # R)" using Suc.prems(1) Cons path_distinct by metis
    from clear_levels_correct [of 0 m h hp cs] Suc.prems(2)
    obtain h1 where cl: "clear_levels m 0 h hp = Some h1" and sh1: "same_shape h h1"
      and ps: "\<forall>j<m. path h1 j hp (tl (cs j))"
      and fr1: "\<forall>q j. m \<le> j \<or> q \<noteq> hp \<longrightarrow> next_at h1 q j = next_at h q j"
      by auto
    from path_next_defined [OF pR, of d] obtain n where "deref h d = Some n"
      by (auto dest: next_at_deref)
    then obtain n1 where n1: "deref h1 d = Some n1"
      using same_shape_deref_None [OF sh1, of d] by auto
    let ?h2 = "h1[d := None]"
    have del: "delete_node h1 (Some d) = Some ?h2" using n1 by (rule delete_node_Some)
    have step: "clear_loop (Suc fuel) m hp h = clear_loop fuel m hp ?h2"
      using nx cl del by simp
    have sub: "subseq (tl (cs j)) R" if "j < m" for j
      using subseq_tl [of "cs j" "cs 0"] Suc.prems(2) that Cons by auto
    have notin: "d \<notin> set (hp # tl (cs j))" if "j < m" for j
      using subseq_set [OF sub [OF that]] dist by auto
    have ps2: "\<forall>j<m. path ?h2 j hp (tl (cs j)) \<and> subseq (tl (cs j)) (tl (cs 0))"
      using ps notin sub Cons by (auto simp: path_delete)
    then have p0: "path ?h2 0 hp (tl (cs 0))" using m by blast
    have len: "length (tl (cs 0)) < fuel" using Suc.prems(4) Cons by simp
    from Suc.IH [of ?h2 "\<lambda>j. tl (cs j)", OF p0 ps2 _ len] m
    obtain h' where res: "clear_loop fuel m hp ?h2 = Some h'" and l: "length h' = length ?h2"
      and e0: "path h' 0 hp []" and es: "\<forall>j<m. path h' j hp []"
      and fr: "\<forall>j. m \<le> j \<longrightarrow> next_at h' hp j = next_at ?h2 hp j"
      and kv: "key_at h' hp = key_at ?h2 hp" "val_at h' hp = val_at ?h2 hp"
      by auto
    have hd: "hp \<noteq> d" using dist by auto
    have "\<forall>j. m \<le> j \<longrightarrow> next_at h' hp j = next_at h hp j"
      using fr fr1 hd by (simp add: next_at_delete)
    moreover have "key_at h' hp = key_at h hp" "val_at h' hp = val_at h hp"
      using kv hd same_shape_key_at [OF sh1] same_shape_val_at [OF sh1]
      by (simp_all add: key_at_delete val_at_delete)
    moreover have "length h' = length h" using l same_shape_length [OF sh1] by simp
    ultimately show ?thesis
      using step res e0 es Cons by (intro exI [of _ h']) (simp del: clear_loop.simps)
  qed
qed

section \<open>The operations on well-formed containers\<close>

subsection \<open>Construction and insert\<close>

lemma well_formedD:
  assumes "well_formed s"
  shows "\<exists>cs. chains_ok (heap s) (head s) MAX_LEVEL cs \<and>
    (\<forall>i. maxLevel s \<le> i \<longrightarrow> i < MAX_LEVEL \<longrightarrow> cs i = [])"
    and "maxLevel s \<le> MAX_LEVEL" and "key_at (heap s) (head s) = KEY_MIN"
  using assms unfolding well_formed_def by blast+

lemma well_formedI:
  assumes "chains_ok (heap s) (head s) MAX_LEVEL cs"
    and "\<And>i. maxLevel s \<le> i \<Longrightarrow> i < MAX_LEVEL \<Longrightarrow> cs i = []"
    and "maxLevel s \<le> MAX_LEVEL" and "key_at (heap s) (head s) = KEY_MIN"
  shows "well_formed s"
  using assms unfolding well_formed_def by blast

lemma SkipList_ctor_default: "SkipList_ctor (of_nat MAX_LEVEL) = Some empty_container"
  by code_simp

lemma construct_and_run_eq: "construct_and_run ops = run empty_container ops"
  by (simp add: construct_and_run_def SkipList_ctor_default)

lemma reachable_iff: "reachable s \<longleftrightarrow> (\<exists>ops. run empty_container ops = Some s)"
  by (simp add: reachable_def construct_and_run_eq)

lemma well_formed_ctor: "well_formed empty_container"
proof (rule well_formedI [where cs = "\<lambda>_. []"])
  show "chains_ok (heap empty_container) (head empty_container) MAX_LEVEL (\<lambda>_. [])"
    by (simp add: chains_ok_def empty_container_def MAX_LEVEL_def next_at_def deref_def)
qed (simp_all add: empty_container_def MAX_LEVEL_def key_at_def deref_def)

lemma key_at_append: "q < length h \<Longrightarrow> key_at (h @ [x]) q = key_at h q"
  and val_at_append: "q < length h \<Longrightarrow> val_at (h @ [x]) q = val_at h q"
  by (simp_all add: key_at_def val_at_def deref_def nth_append)

lemma key_at_new: "key_at (h @ [Some n]) (length h) = key n"
  and val_at_new: "val_at (h @ [Some n]) (length h) = val n"
  by (simp_all add: key_at_def val_at_def deref_def)

lemma ikey_append: "q < length h \<Longrightarrow> ikey (h @ [x]) q = ikey h q"
  by (simp add: ikey_def key_at_append)

lemma lt_at_append: "q < length h \<Longrightarrow> lt_at (h @ [x]) k v q = lt_at h k v q"
  by (simp add: lt_at_def ikey_append val_at_append)

lemma chains_ok_bound:
  "chains_ok h hp n cs \<Longrightarrow> i < n \<Longrightarrow> q \<in> set (hp # cs i) \<Longrightarrow> q < length h"
  using path_bound chains_ok_path by blast

lemma chains_ok_append:
  assumes "chains_ok h hp n cs"
  shows "chains_ok (h @ [x]) hp n cs"
  unfolding chains_ok_def
proof (intro conjI allI impI)
  fix i assume i: "i < n"
  have b: "\<And>q. q \<in> set (hp # cs i) \<Longrightarrow> q < length h"
    using chains_ok_bound [OF assms i] .
  have "path (h @ [x]) i hp (cs i) = path h i hp (cs i)"
    using b by (intro path_frame next_at_append) 
  then show "path (h @ [x]) i hp (cs i)" using chains_ok_path [OF assms i] by simp
  have e: "map (ikey (h @ [x])) (cs i) = map (ikey h) (cs i)"
    using b by (intro map_cong) (auto simp: ikey_append)
  show "sorted (map (ikey (h @ [x])) (cs i))"
    unfolding e using chains_ok_sorted [OF assms i] .
next
  fix i assume "Suc i < n"
  then show "subseq (cs (Suc i)) (cs i)" using assms by (simp add: chains_ok_def)
qed

lemma placed_cong:
  assumes "placed P node cs cs'" "\<And>x. x \<in> set cs \<Longrightarrow> P x = Q x"
  shows "placed Q node cs cs'"
proof -
  from assms(1) obtain X Y where *: "cs = X @ Y" "cs' = X @ node # Y"
    "X = [] \<or> P (last X)" "Y = [] \<or> \<not> P (hd Y)"
    by (auto simp: placed_def)
  have "X = [] \<or> Q (last X)"
  proof (cases "X = []")
    case False
    then have "last X \<in> set cs" using *(1) by simp
    with assms(2) *(3) False show ?thesis by auto
  qed simp
  moreover have "Y = [] \<or> \<not> Q (hd Y)"
  proof (cases "Y = []")
    case False
    then have "hd Y \<in> set cs" using *(1) by simp
    with assms(2) *(4) False show ?thesis by auto
  qed simp
  ultimately show ?thesis using *(1,2) unfolding placed_def by blast
qed

lemma insert_kv_wf:
  assumes wf: "well_formed s"
    and ok: "chains_ok (heap s) (head s) MAX_LEVEL cs"
  shows "\<exists>lv h' cs'. randomLevel MAX_LEVEL rd = Some lv \<and> 0 < lv \<and> lv \<le> MAX_LEVEL \<and>
      insert_kv s k v rd = Some (0, s\<lparr>maxLevel := max (maxLevel s) lv, heap := h'\<rparr>) \<and>
      well_formed (s\<lparr>maxLevel := max (maxLevel s) lv, heap := h'\<rparr>) \<and>
      chains_ok h' (head s) MAX_LEVEL cs' \<and>
      (\<forall>i<MAX_LEVEL. if i < lv
         then placed (lt_at (heap s) k v) (length (heap s)) (cs i) (cs' i)
         else cs' i = cs i) \<and>
      length h' = Suc (length (heap s)) \<and>
      (\<forall>q<length (heap s). key_at h' q = key_at (heap s) q \<and> val_at h' q = val_at (heap s) q) \<and>
      key_at h' (length (heap s)) = k \<and> val_at h' (length (heap s)) = v"
proof -
  let ?h = "heap s" and ?hp = "head s"
  let ?node = "length ?h"
  from randomLevel_MAX_LEVEL [of rd] obtain lv where
    lv: "randomLevel MAX_LEVEL rd = Some lv" "0 < lv" "lv \<le> MAX_LEVEL" by blast
  let ?ha = "?h @ [Some \<lparr>key = k, val = v, level = replicate lv None\<rparr>]"
  define m where "m = max (maxLevel s) lv"
  have mge: "maxLevel s \<le> m" "lv \<le> m" by (simp_all add: m_def)
  from well_formedD(1) [OF wf] obtain cs0 where ok0: "chains_ok ?h ?hp MAX_LEVEL cs0"
    and emp0: "\<forall>i. maxLevel s \<le> i \<longrightarrow> i < MAX_LEVEL \<longrightarrow> cs0 i = []"
    by blast
  have ml: "maxLevel s \<le> MAX_LEVEL" and km: "key_at ?h ?hp = KEY_MIN"
    using well_formedD(2,3) [OF wf] .
  have same: "cs i = cs0 i" if "i < MAX_LEVEL" for i
    using chains_ok_path [OF ok that] chains_ok_path [OF ok0 that] by (rule path_unique)
  have emp: "\<And>i. maxLevel s \<le> i \<Longrightarrow> i < MAX_LEVEL \<Longrightarrow> cs i = []"
    using emp0 same by simp
  have m: "m \<le> MAX_LEVEL" using ml lv by (simp add: m_def)
  have hpb: "?hp < length ?h"
    using chains_ok_bound [OF ok, of 0 ?hp] by (simp add: MAX_LEVEL_def)
  have ok_h0: "chains_ok ?ha ?hp MAX_LEVEL cs" using ok by (rule chains_ok_append)
  then have okm: "chains_ok ?ha ?hp m cs" using m by (rule chains_ok_mono)
  have fresh: "\<forall>i<m. ?node \<notin> set (?hp # cs i)"
  proof (intro allI impI)
    fix i assume "i < m"
    then have "i < MAX_LEVEL" using m by linarith
    from chains_ok_bound [OF ok this, of ?node] show "?node \<notin> set (?hp # cs i)" by blast
  qed
  have live: "\<forall>i<lv. \<exists>y. next_at ?ha ?node i = Some y"
    by (simp add: next_at_new)
  have nk: "ikey ?ha ?node = sint k" by (simp add: ikey_def key_at_new)
  from insert_levels_correct [OF okm _ _ fresh live nk, of ?hp v]
  obtain h' cs'' where res: "insert_levels m ?ha lv k v ?node ?hp = Some h'"
    and sh: "same_shape ?ha h'"
    and ok'': "chains_ok h' ?hp m cs''"
    and pl: "\<forall>i<m. if i < lv then placed (lt_at ?ha k v) ?node (cs i) (cs'' i)
                     else cs'' i = cs i"
    and fr: "\<forall>q j. m \<le> j \<longrightarrow> next_at h' q j = next_at ?ha q j"
    by auto
  define cs' where "cs' i = (if i < m then cs'' i else cs i)" for i
  have f': "ikey h' = ikey ?ha" using sh by (rule same_shape_ikey)
  have ok': "chains_ok h' ?hp MAX_LEVEL cs'"
    unfolding chains_ok_def
  proof (intro conjI allI impI)
    fix i assume i: "i < MAX_LEVEL"
    show "path h' i ?hp (cs' i)"
    proof (cases "i < m")
      case True
      then show ?thesis using ok'' by (simp add: cs'_def chains_ok_def)
    next
      case False
      then have "path h' i ?hp (cs i) = path ?ha i ?hp (cs i)"
        using fr by (intro path_frame) auto
      with False chains_ok_path [OF ok_h0 i] show ?thesis by (simp add: cs'_def)
    qed
    show "sorted (map (ikey h') (cs' i))"
    proof (cases "i < m")
      case True
      then show ?thesis using ok'' by (simp add: cs'_def chains_ok_def)
    next
      case False
      with chains_ok_sorted [OF ok_h0 i] show ?thesis by (simp add: cs'_def f')
    qed
  next
    fix i assume i: "Suc i < MAX_LEVEL"
    show "subseq (cs' (Suc i)) (cs' i)"
    proof (cases "Suc i < m")
      case True
      then show ?thesis using ok'' by (simp add: cs'_def chains_ok_def)
    next
      case False
      then have "cs (Suc i) = []" using emp [of "Suc i"] i mge by simp
      with False show ?thesis by (simp add: cs'_def)
    qed
  qed
  have pl': "\<forall>i<MAX_LEVEL. if i < lv
         then placed (lt_at ?h k v) ?node (cs i) (cs' i) else cs' i = cs i"
  proof (intro allI impI)
    fix i assume i: "i < MAX_LEVEL"
    show "if i < lv then placed (lt_at ?h k v) ?node (cs i) (cs' i) else cs' i = cs i"
    proof (cases "i < lv")
      case True
      then have im: "i < m" using mge by simp
      with pl True have "placed (lt_at ?ha k v) ?node (cs i) (cs'' i)" by auto
      moreover have "lt_at ?ha k v x = lt_at ?h k v x" if "x \<in> set (cs i)" for x
        using chains_ok_bound [OF ok i, of x] that by (simp add: lt_at_append)
      ultimately have "placed (lt_at ?h k v) ?node (cs i) (cs'' i)"
        by (rule placed_cong)
      with True im show ?thesis by (simp add: cs'_def)
    next
      case False
      with pl show ?thesis by (cases "i < m") (auto simp: cs'_def)
    qed
  qed
  have len: "length h' = Suc (length ?h)" using same_shape_length [OF sh] by simp
  have kv: "\<forall>q<length ?h. key_at h' q = key_at ?h q \<and> val_at h' q = val_at ?h q"
    using same_shape_key_at [OF sh] same_shape_val_at [OF sh]
    by (simp add: key_at_append val_at_append)
  have kvn: "key_at h' ?node = k" "val_at h' ?node = v"
    using same_shape_key_at [OF sh, of ?node] same_shape_val_at [OF sh, of ?node]
    by (simp_all add: key_at_new val_at_new)
  let ?s' = "s\<lparr>maxLevel := m, heap := h'\<rparr>"
  have wf': "well_formed ?s'"
  proof (rule well_formedI [where cs = cs'])
    show "chains_ok (heap ?s') (head ?s') MAX_LEVEL cs'" using ok' by simp
    show "cs' i = []" if "maxLevel ?s' \<le> i" "i < MAX_LEVEL" for i
      using that emp [of i] mge by (simp add: cs'_def)
    show "maxLevel ?s' \<le> MAX_LEVEL" using m by simp
    show "key_at (heap ?s') (head ?s') = KEY_MIN" using kv hpb km by simp
  qed
  have "insert_kv s k v rd = Some (0, ?s')"
  proof (cases "maxLevel s < lv")
    case True
    then have "m = lv" by (simp add: m_def)
    with True lv(1) res show ?thesis by (simp add: insert_kv_def createNode_def)
  next
    case False
    then have "m = maxLevel s" by (simp add: m_def)
    with False lv(1) res show ?thesis by (simp add: insert_kv_def createNode_def)
  qed
  with lv wf' ok' pl' len kv kvn show ?thesis unfolding m_def by blast
qed

subsection \<open>searchNode\<close>

lemma well_formed_chain0:
  assumes "well_formed s" "path (heap s) 0 (head s) c0"
  obtains cs where "chains_ok (heap s) (head s) MAX_LEVEL cs" "cs 0 = c0"
    and "\<forall>i. maxLevel s \<le> i \<longrightarrow> i < MAX_LEVEL \<longrightarrow> cs i = []"
proof -
  from well_formedD(1) [OF assms(1)] obtain cs where ok: "chains_ok (heap s) (head s) MAX_LEVEL cs"
    and emp: "\<forall>i. maxLevel s \<le> i \<longrightarrow> i < MAX_LEVEL \<longrightarrow> cs i = []"
    by blast
  have "path (heap s) 0 (head s) (cs 0)"
    using ok by (rule chains_ok_path) (simp add: MAX_LEVEL_def)
  then have "cs 0 = c0" using assms(2) by (rule path_unique)
  with ok emp that show thesis by blast
qed

lemma well_formed_level_chain:
  assumes "well_formed s"
  shows "\<exists>c0. level_chain s 0 = Some c0"
proof -
  from well_formedD(1) [OF assms] obtain cs where ok: "chains_ok (heap s) (head s) MAX_LEVEL cs"
    by blast
  have "path (heap s) 0 (head s) (cs 0)"
    using ok by (rule chains_ok_path) (simp add: MAX_LEVEL_def)
  then show ?thesis by (auto simp: level_chain_iff)
qed

lemma searchNode_wf:
  fixes K :: KeyType
  assumes "well_formed s" "path (heap s) 0 (head s) c0"
  defines "p \<equiv> last (head s # takeWhile (\<lambda>q. ikey (heap s) q \<le> sint K) c0)"
  shows "searchNode s K = Some (if key_at (heap s) p = K then Some p else None)"
    and "p \<in> set (head s # c0)"
proof -
  let ?h = "heap s" and ?hp = "head s"
  from well_formed_chain0 [OF assms(1,2)] obtain cs where
    ok: "chains_ok ?h ?hp MAX_LEVEL cs" and c0: "cs 0 = c0"
    and emp: "\<forall>i. maxLevel s \<le> i \<longrightarrow> i < MAX_LEVEL \<longrightarrow> cs i = []" by blast
  have ml: "maxLevel s \<le> MAX_LEVEL" using well_formedD(2) [OF assms(1)] .
  have okm: "chains_ok ?h ?hp (maxLevel s) cs" using ok ml by (rule chains_ok_mono)
  have lv: "searchNode_levels (maxLevel s) ?h K ?hp = Some p"
  proof (cases "maxLevel s = 0")
    case True
    then have "c0 = []" using emp c0 by (auto simp: MAX_LEVEL_def)
    with True show ?thesis by (simp add: p_def)
  next
    case False
    with searchNode_levels_correct [OF okm, of ?hp K] c0 show ?thesis
      by (simp add: p_def)
  qed
  show pm: "p \<in> set (?hp # c0)" unfolding p_def by (rule last_takeWhile_mem)
  from path_next_defined [OF assms(2) pm] obtain n where n: "deref ?h p = Some n"
    by (auto dest: next_at_deref)
  then have "key n = key_at ?h p" by (simp add: key_at_def)
  with lv n show "searchNode s K = Some (if key_at ?h p = K then Some p else None)"
    by (simp add: searchNode_def)
qed

lemma takeWhile_le_last:
  assumes "sorted (map f c)" "q \<in> set c" "f q \<le> K"
  shows "takeWhile (\<lambda>x. f x \<le> K) c \<noteq> [] \<and> f q \<le> f (last (takeWhile (\<lambda>x. f x \<le> K) c))"
  using assms
proof (induction c)
  case Nil
  then show ?case by simp
next
  case (Cons a c)
  show ?case
  proof (cases "q = a")
    case True
    with Cons.prems have a: "f a \<le> K" by simp
    show ?thesis
    proof (cases "takeWhile (\<lambda>x. f x \<le> K) c = []")
      case True
      with a \<open>q = a\<close> show ?thesis by simp
    next
      case False
      then have "last (takeWhile (\<lambda>x. f x \<le> K) c) \<in> set c"
        by (meson last_in_set set_takeWhileD)
      with Cons.prems(1) have "f a \<le> f (last (takeWhile (\<lambda>x. f x \<le> K) c))" by auto
      with a False \<open>q = a\<close> show ?thesis by simp
    qed
  next
    case False
    with Cons.prems have q: "q \<in> set c" and aq: "f a \<le> f q" by auto
    from aq Cons.prems(3) have a: "f a \<le> K" by (rule order_trans)
    from Cons.IH [OF _ q Cons.prems(3)] Cons.prems(1) a show ?thesis by simp
  qed
qed

text \<open>A key that some node of the level-0 chain holds is found, at a node of the chain.\<close>

lemma searchNode_present:
  assumes "well_formed s" "path (heap s) 0 (head s) c0" "q \<in> set c0" "key_at (heap s) q = K"
  shows "\<exists>p \<in> set c0. searchNode s K = Some (Some p) \<and> key_at (heap s) p = K"
proof -
  let ?h = "heap s" and ?C = "\<lambda>x. ikey (heap s) x \<le> sint K"
  let ?p = "last (head s # takeWhile ?C c0)"
  from well_formed_chain0 [OF assms(1,2)] obtain cs where
    ok: "chains_ok ?h (head s) MAX_LEVEL cs" and c0: "cs 0 = c0" by blast
  have srt: "sorted (map (ikey ?h) c0)"
    using chains_ok_sorted [OF ok, of 0] c0 by (simp add: MAX_LEVEL_def)
  have qk: "ikey ?h q \<le> sint K" using assms(4) by (simp add: ikey_def)
  from takeWhile_le_last [OF srt assms(3) qk]
  have ne: "takeWhile ?C c0 \<noteq> []" and ge: "ikey ?h q \<le> ikey ?h (last (takeWhile ?C c0))"
    by simp_all
  have p: "?p = last (takeWhile ?C c0)" using ne by simp
  have "?p \<in> set (takeWhile ?C c0)" unfolding p using ne by (rule last_in_set)
  then have pm: "?p \<in> set c0" and le: "ikey ?h ?p \<le> sint K"
    by (auto dest: set_takeWhileD)
  have "ikey ?h ?p = sint K" using ge le assms(4) p by (simp add: ikey_def)
  then have "key_at ?h ?p = K" by (simp add: ikey_def sint_eq_iff)
  with searchNode_wf(1) [OF assms(1,2), of K] pm show ?thesis by auto
qed

text \<open>A key that no node holds is not found, unless it is the key of the head sentinel.\<close>

lemma searchNode_absent:
  assumes "well_formed s" "path (heap s) 0 (head s) c0" "\<forall>q \<in> set c0. key_at (heap s) q \<noteq> K"
  shows "searchNode s K = Some (if K = KEY_MIN then Some (head s) else None)"
proof -
  let ?h = "heap s" and ?C = "\<lambda>x. ikey (heap s) x \<le> sint K"
  let ?p = "last (head s # takeWhile ?C c0)"
  have km: "key_at ?h (head s) = KEY_MIN" using well_formedD(3) [OF assms(1)] .
  have pm: "?p \<in> set (head s # c0)" by (rule last_takeWhile_mem)
  show ?thesis
  proof (cases "K = KEY_MIN")
    case True
    have "takeWhile ?C c0 = []"
    proof (cases c0)
      case (Cons a c)
      with assms(3) True have "key_at ?h a \<noteq> KEY_MIN" by simp
      then have "sint (key_at ?h a) \<noteq> sint KEY_MIN" by (simp add: sint_eq_iff)
      with sint_KEY_MIN_le [of "key_at ?h a"] have "\<not> ikey ?h a \<le> sint K"
        using True by (simp add: ikey_def)
      with Cons show ?thesis by simp
    qed simp
    with searchNode_wf(1) [OF assms(1,2), of K] km True show ?thesis by simp
  next
    case False
    have "key_at ?h ?p \<noteq> K"
    proof (cases "?p = head s")
      case True
      with km False show ?thesis by metis
    next
      case False
      with pm have "?p \<in> set c0" by auto
      with assms(3) show ?thesis by blast
    qed
    with searchNode_wf(1) [OF assms(1,2), of K] False show ?thesis by simp
  qed
qed

subsection \<open>update, remove and clear\<close>

lemma next_at_set_val:
  "deref h p = Some n \<Longrightarrow> next_at (h[p := Some (n\<lparr>val := v\<rparr>)]) q j = next_at h q j"
  by (auto simp: next_at_def deref_def nth_list_update split: if_splits)

lemma key_at_set_val:
  "deref h p = Some n \<Longrightarrow> key_at (h[p := Some (n\<lparr>val := v\<rparr>)]) q = key_at h q"
  by (auto simp: key_at_def deref_def nth_list_update split: if_splits)

lemma path_set_val:
  "deref h p = Some n \<Longrightarrow> path (h[p := Some (n\<lparr>val := v\<rparr>)]) i x ns = path h i x ns"
  by (intro path_frame) (simp add: next_at_set_val)

lemma chains_ok_set_val:
  assumes "deref h p = Some n" "chains_ok h hp m cs"
  shows "chains_ok (h[p := Some (n\<lparr>val := v\<rparr>)]) hp m cs"
proof -
  have "ikey (h[p := Some (n\<lparr>val := v\<rparr>)]) = ikey h"
    by (rule ext) (simp add: ikey_def key_at_set_val [OF assms(1)])
  with assms(2) show ?thesis
    by (simp add: chains_ok_def path_set_val [OF assms(1)])
qed

lemma searchNode_SomeD:
  "searchNode s K = Some (Some p) \<Longrightarrow> \<exists>n. deref (heap s) p = Some n \<and> key n = K"
  by (auto simp: searchNode_def split: Option.bind_splits if_splits)

lemma update_found:
  assumes wf: "well_formed s" and found: "searchNode s K = Some (Some p)"
  shows "\<exists>n s'. deref (heap s) p = Some n \<and> key n = K \<and>
           s' = s\<lparr>heap := (heap s)[p := Some (n\<lparr>val := v\<rparr>)]\<rparr> \<and>
           update s K v = Some (0, s') \<and> well_formed s' \<and>
           searchNode s' K = Some (Some p) \<and> search s' K = Some v \<and>
           (\<forall>i. level_chain s' i = level_chain s i)"
proof -
  let ?h = "heap s"
  from searchNode_SomeD [OF found] obtain n where n: "deref ?h p = Some n" "key n = K" by blast
  let ?h' = "?h[p := Some (n\<lparr>val := v\<rparr>)]"
  let ?s' = "s\<lparr>heap := ?h'\<rparr>"
  have upd: "update s K v = Some (0, ?s')" using found n by (simp add: update_def)
  from well_formedD(1) [OF wf] obtain cs where ok: "chains_ok ?h (head s) MAX_LEVEL cs"
    and emp: "\<forall>i. maxLevel s \<le> i \<longrightarrow> i < MAX_LEVEL \<longrightarrow> cs i = []" by blast
  have wf': "well_formed ?s'"
    using chains_ok_set_val [OF n(1) ok, of v] emp well_formedD(2,3) [OF wf]
    by (intro well_formedI [where cs = cs]) (simp_all add: key_at_set_val [OF n(1)])
  have p0: "path ?h 0 (head s) (cs 0)"
    using ok by (rule chains_ok_path) (simp add: MAX_LEVEL_def)
  then have p0': "path (heap ?s') 0 (head ?s') (cs 0)" by (simp add: path_set_val [OF n(1)])
  have ik: "ikey ?h' = ikey ?h"
    by (rule ext) (simp add: ikey_def key_at_set_val [OF n(1)])
  have "searchNode ?s' K = searchNode s K"
    using searchNode_wf(1) [OF wf p0, of K] searchNode_wf(1) [OF wf' p0', of K]
    by (simp add: ik key_at_set_val [OF n(1)])
  then have sn: "searchNode ?s' K = Some (Some p)" using found by simp
  have "p < length ?h" using n(1) by (auto simp: deref_def split: if_splits)
  then have "deref ?h' p = Some (n\<lparr>val := v\<rparr>)" by (simp add: deref_def)
  with sn have se: "search ?s' K = Some v" by (simp add: search_def)
  have lc: "\<forall>i. level_chain ?s' i = level_chain s i"
  proof
    fix i
    have "level_chain ?s' i = Some c \<longleftrightarrow> level_chain s i = Some c" for c
      by (simp add: level_chain_iff path_set_val [OF n(1)])
    then show "level_chain ?s' i = level_chain s i"
      by (metis option.exhaust)
  qed
  from n upd wf' sn se lc show ?thesis by blast
qed

lemma first_eq_mem:
  assumes "first_eq f K c = Some q"
  shows "q \<in> set c"
proof -
  from first_eq_Some [OF assms] obtain R where "dropWhile (\<lambda>q. f q < K) c = q # R" by blast
  then have "q \<in> set (dropWhile (\<lambda>q. f q < K) c)" by simp
  then show ?thesis by (rule set_dropWhileD)
qed

lemma rm1_first_notin:
  assumes "distinct c" "first_eq f K c = Some q"
  shows "q \<notin> set (rm1 f K c)"
proof -
  from first_eq_Some [OF assms(2)] obtain R where D: "dropWhile (\<lambda>q. f q < K) c = q # R"
    by blast
  have "c = takeWhile (\<lambda>q. f q < K) c @ q # R"
    using D by (metis takeWhile_dropWhile_id)
  with assms(1) have "distinct (takeWhile (\<lambda>q. f q < K) c @ q # R)" by simp
  then have "q \<notin> set (takeWhile (\<lambda>q. f q < K) c @ R)" by auto
  moreover have "rm1 f K c = takeWhile (\<lambda>q. f q < K) c @ R"
    using assms(2) D by (simp add: rm1_first_eq)
  ultimately show ?thesis by simp
qed

lemma rm1_Nil [simp]: "rm1 f K [] = []"
  by simp

lemma rm1_none: "first_eq f K c = None \<Longrightarrow> rm1 f K c = c"
  by (simp add: rm1_first_eq)

lemma remove_wf:
  assumes wf: "well_formed s" and c0: "path (heap s) 0 (head s) c0"
  shows "\<exists>h'. remove s K =
            Some ((case first_eq (ikey (heap s)) (sint K) c0 of None \<Rightarrow> MINUS_ONE
                   | Some q \<Rightarrow> val_at (heap s) q), s\<lparr>heap := h'\<rparr>) \<and>
          well_formed (s\<lparr>heap := h'\<rparr>) \<and>
          path h' 0 (head s) (rm1 (ikey (heap s)) (sint K) c0) \<and>
          (first_eq (ikey (heap s)) (sint K) c0 = None \<longrightarrow> h' = heap s) \<and>
          (\<forall>q \<in> set (head s # rm1 (ikey (heap s)) (sint K) c0).
              key_at h' q = key_at (heap s) q \<and> val_at h' q = val_at (heap s) q)"
proof -
  let ?h = "heap s" and ?hp = "head s"
  let ?f = "ikey (heap s)" and ?K = "sint K"
  let ?n = "maxLevel s"
  from well_formed_chain0 [OF wf c0] obtain cs where
    ok: "chains_ok ?h ?hp MAX_LEVEL cs" and cs0: "cs 0 = c0"
    and emp: "\<forall>i. ?n \<le> i \<longrightarrow> i < MAX_LEVEL \<longrightarrow> cs i = []" by blast
  have ml: "?n \<le> MAX_LEVEL" and km: "key_at ?h ?hp = KEY_MIN"
    using well_formedD(2,3) [OF wf] .
  have okn: "chains_ok ?h ?hp ?n cs" using ok ml by (rule chains_ok_mono)
  have pos: "0 < MAX_LEVEL" by (simp add: MAX_LEVEL_def)
  have srt0: "sorted (map ?f c0)" using chains_ok_sorted [OF ok pos] cs0 by simp
  have d0: "distinct (?hp # c0)" using c0 by (rule path_distinct)
  let ?fe = "first_eq ?f ?K c0"
  have fe0: "?n = 0 \<Longrightarrow> ?fe = None"
    using emp cs0 pos by (auto simp: first_eq_def)
  from remove_levels_correct [OF okn, of ?hp K None MINUS_ONE]
  obtain h1 where
    res: "remove_levels ?n ?h K ?hp None MINUS_ONE =
            Some (h1, (case ?fe of None \<Rightarrow> None | Some q \<Rightarrow> Some q),
                      (case ?fe of None \<Rightarrow> MINUS_ONE | Some q \<Rightarrow> val_at ?h q))"
    and sh: "same_shape ?h h1"
    and ps: "\<forall>i<?n. path h1 i ?hp (rm1 ?f ?K (cs i))"
    and fr: "\<forall>q j. ?n \<le> j \<longrightarrow> next_at h1 q j = next_at ?h q j"
    and eq: "(\<forall>i<?n. first_eq ?f ?K (cs i) = None) \<longrightarrow> h1 = ?h"
    using fe0 cs0 by (cases "?n = 0") (auto split: option.splits)
  have ps1: "path h1 i ?hp (rm1 ?f ?K (cs i))" if i: "i < MAX_LEVEL" for i
  proof (cases "i < ?n")
    case True
    with ps show ?thesis by simp
  next
    case False
    with emp i have e: "cs i = []" by simp
    have "path h1 i ?hp [] = path ?h i ?hp []"
      using fr False by (intro path_frame) simp
    with chains_ok_path [OF ok i] e show ?thesis by simp
  qed
  have sub: "subseq (rm1 ?f ?K (cs i)) (rm1 ?f ?K c0)" if "i < MAX_LEVEL" for i
    using chains_ok_subseq [OF ok that, of 0] cs0 by (auto intro: rm1_subseq)
  show ?thesis
  proof (cases ?fe)
    case None
    have "first_eq ?f ?K (cs i) = None" if "i < ?n" for i
    proof -
      from that ml have "i < MAX_LEVEL" by simp
      from first_eq_subseq_None [OF chains_ok_subseq [OF ok this, of 0]] srt0 None cs0
      show ?thesis by simp
    qed
    with eq have h1: "h1 = ?h" by simp
    have "remove s K = Some (MINUS_ONE, s\<lparr>heap := ?h\<rparr>)"
      using res None h1 by (simp add: remove_def delete_node_def)
    moreover have "s\<lparr>heap := ?h\<rparr> = s" by simp
    ultimately show ?thesis
      using None wf c0 by (intro exI [of _ ?h]) (simp add: rm1_none)
  next
    case (Some q)
    have qm: "q \<in> set c0" using Some by (rule first_eq_mem)
    have qhp: "q \<noteq> ?hp" using qm d0 by auto
    from path_next_defined [OF c0, of q] qm obtain n where "deref ?h q = Some n"
      by (auto dest: next_at_deref)
    then obtain n1 where n1: "deref h1 q = Some n1"
      using same_shape_deref_None [OF sh, of q] by auto
    let ?h2 = "h1[q := None]"
    have rem: "remove s K = Some (val_at ?h q, s\<lparr>heap := ?h2\<rparr>)"
      using res Some delete_node_Some [OF n1] by (simp add: remove_def)
    have notin0: "q \<notin> set (rm1 ?f ?K c0)"
      using d0 Some by (intro rm1_first_notin) auto
    have notin: "q \<notin> set (?hp # rm1 ?f ?K (cs i))" if "i < MAX_LEVEL" for i
      using subseq_set [OF sub [OF that]] notin0 qhp by auto
    have kv: "key_at ?h2 x = key_at ?h x \<and> val_at ?h2 x = val_at ?h x" if "x \<noteq> q" for x
      using that same_shape_key_at [OF sh] same_shape_val_at [OF sh]
      by (simp add: key_at_delete val_at_delete)
    have ok2: "chains_ok ?h2 ?hp MAX_LEVEL (\<lambda>i. rm1 ?f ?K (cs i))"
      unfolding chains_ok_def
    proof (intro conjI allI impI)
      fix i assume i: "i < MAX_LEVEL"
      show "path ?h2 i ?hp (rm1 ?f ?K (cs i))"
        using ps1 [OF i] path_delete [OF notin [OF i], of h1 i] by simp
      have srt: "sorted (map ?f (rm1 ?f ?K (cs i)))"
        using rm1_subseq_self chains_ok_sorted [OF ok i] by (rule subseq_sorted_map)
      have "ikey ?h2 x = ?f x" if "x \<in> set (rm1 ?f ?K (cs i))" for x
      proof -
        from that notin [OF i] have "x \<noteq> q" by auto
        from kv [OF this] show ?thesis by (simp add: ikey_def)
      qed
      then have e: "map (ikey ?h2) (rm1 ?f ?K (cs i)) = map ?f (rm1 ?f ?K (cs i))"
        by (intro map_cong) auto
      show "sorted (map (ikey ?h2) (rm1 ?f ?K (cs i)))" unfolding e using srt .
    next
      fix i assume "Suc i < MAX_LEVEL"
      then show "subseq (rm1 ?f ?K (cs (Suc i))) (rm1 ?f ?K (cs i))"
        using ok by (intro rm1_subseq) (simp add: chains_ok_def)
    qed
    have wf2: "well_formed (s\<lparr>heap := ?h2\<rparr>)"
    proof (rule well_formedI [where cs = "\<lambda>i. rm1 ?f ?K (cs i)"])
      show "chains_ok (heap (s\<lparr>heap := ?h2\<rparr>)) (head (s\<lparr>heap := ?h2\<rparr>)) MAX_LEVEL
              (\<lambda>i. rm1 ?f ?K (cs i))"
        using ok2 by simp
      show "rm1 ?f ?K (cs i) = []" if "maxLevel (s\<lparr>heap := ?h2\<rparr>) \<le> i" "i < MAX_LEVEL" for i
        using that emp by simp
      show "maxLevel (s\<lparr>heap := ?h2\<rparr>) \<le> MAX_LEVEL" using ml by simp
      show "key_at (heap (s\<lparr>heap := ?h2\<rparr>)) (head (s\<lparr>heap := ?h2\<rparr>)) = KEY_MIN"
        using kv [of ?hp] qhp km by simp
    qed
    have p2: "path ?h2 0 ?hp (rm1 ?f ?K c0)"
      using chains_ok_path [OF ok2 pos] cs0 by simp
    have "\<forall>x \<in> set (?hp # rm1 ?f ?K c0). key_at ?h2 x = key_at ?h x \<and> val_at ?h2 x = val_at ?h x"
    proof
      fix x assume "x \<in> set (?hp # rm1 ?f ?K c0)"
      with notin0 qhp have "x \<noteq> q" by auto
      then show "key_at ?h2 x = key_at ?h x \<and> val_at ?h2 x = val_at ?h x" by (rule kv)
    qed
    with rem wf2 p2 Some show ?thesis
      by (intro exI [of _ ?h2]) simp
  qed
qed

lemma clear_wf:
  assumes wf: "well_formed s"
  shows "\<exists>h'. clear s = Some (s\<lparr>heap := h'\<rparr>) \<and> well_formed (s\<lparr>heap := h'\<rparr>) \<and>
          (\<forall>i<MAX_LEVEL. path h' i (head s) []) \<and>
          val_at h' (head s) = val_at (heap s) (head s) \<and>
          (path (heap s) 0 (head s) [] \<longrightarrow> h' = heap s)"
proof -
  let ?h = "heap s" and ?hp = "head s" and ?m = "maxLevel s"
  from well_formedD(1) [OF wf] obtain cs where ok: "chains_ok ?h ?hp MAX_LEVEL cs"
    and emp: "\<forall>i. ?m \<le> i \<longrightarrow> i < MAX_LEVEL \<longrightarrow> cs i = []" by blast
  have ml: "?m \<le> MAX_LEVEL" and km: "key_at ?h ?hp = KEY_MIN"
    using well_formedD(2,3) [OF wf] .
  have pos: "0 < MAX_LEVEL" by (simp add: MAX_LEVEL_def)
  have p0: "path ?h 0 ?hp (cs 0)" using ok pos by (rule chains_ok_path)
  have a2: "\<forall>j<?m. path ?h j ?hp (cs j) \<and> subseq (cs j) (cs 0)"
    using chains_ok_path [OF ok] chains_ok_subseq [OF ok, of _ 0] ml by auto
  have a3: "?m = 0 \<longrightarrow> cs 0 = []" using emp pos by auto
  from clear_loop_correct [OF p0 a2 a3 path_length [OF p0]]
  obtain h' where res: "clear_loop (length ?h) ?m ?hp ?h = Some h'"
    and e0: "path h' 0 ?hp []" and es: "\<forall>j<?m. path h' j ?hp []"
    and fr: "\<forall>j. ?m \<le> j \<longrightarrow> next_at h' ?hp j = next_at ?h ?hp j"
    and kv: "key_at h' ?hp = key_at ?h ?hp" "val_at h' ?hp = val_at ?h ?hp"
    and same: "cs 0 = [] \<longrightarrow> h' = ?h"
    by blast
  have all: "path h' i ?hp []" if i: "i < MAX_LEVEL" for i
  proof (cases "i < ?m")
    case True
    with es show ?thesis by simp
  next
    case False
    with emp i have "cs i = []" by simp
    with chains_ok_path [OF ok i] have "next_at ?h ?hp i = Some None" by simp
    with fr False show ?thesis by simp
  qed
  have wf': "well_formed (s\<lparr>heap := h'\<rparr>)"
    using all ml km kv
    by (intro well_formedI [where cs = "\<lambda>_. []"]) (simp_all add: chains_ok_def)
  have "path ?h 0 ?hp [] \<longrightarrow> h' = ?h"
    using same p0 path_unique by blast
  moreover have "clear s = Some (s\<lparr>heap := h'\<rparr>)" using res by (simp add: clear_def)
  ultimately show ?thesis using wf' all kv by blast
qed

section \<open>Reachable containers\<close>

lemma searchNode_defined:
  assumes "well_formed s"
  shows "\<exists>r. searchNode s K = Some r"
proof -
  from well_formed_level_chain [OF assms] obtain c0 where "path (heap s) 0 (head s) c0"
    by (auto simp: level_chain_iff)
  from searchNode_wf(1) [OF assms this, of K] show ?thesis by blast
qed

lemma apply_op_wf:
  assumes "well_formed s"
  shows "\<exists>s'. apply_op s x = Some s' \<and> well_formed s'"
proof (cases x)
  case (Insert k v rd)
  from well_formedD(1) [OF assms] obtain cs where "chains_ok (heap s) (head s) MAX_LEVEL cs"
    by blast
  from insert_kv_wf [OF assms this, of rd k v] Insert show ?thesis by auto
next
  case (Update k v)
  from searchNode_defined [OF assms, of k] obtain r where r: "searchNode s k = Some r" by blast
  show ?thesis
  proof (cases r)
    case None
    with r Update assms show ?thesis by (simp add: update_def)
  next
    case (Some p)
    with r update_found [OF assms, of k p v] Update show ?thesis by auto
  qed
next
  case (Remove k)
  from well_formed_level_chain [OF assms] obtain c0 where "path (heap s) 0 (head s) c0"
    by (auto simp: level_chain_iff)
  from remove_wf [OF assms this, of k] Remove show ?thesis by auto
next
  case Clear
  with clear_wf [OF assms] show ?thesis by auto
qed

lemma run_wf:
  "well_formed s \<Longrightarrow> \<exists>s'. run s ops = Some s' \<and> well_formed s'"
proof (induction ops arbitrary: s)
  case Nil
  then show ?case by simp
next
  case (Cons x ops)
  from apply_op_wf [OF Cons.prems, of x] obtain s1 where
    "apply_op s x = Some s1" "well_formed s1" by blast
  with Cons.IH [of s1] show ?case by simp
qed

lemma reachable_wf:
  assumes "reachable s"
  shows "well_formed s"
proof -
  from assms obtain ops where r: "run empty_container ops = Some s"
    by (auto simp: reachable_iff)
  from run_wf [OF well_formed_ctor, of ops] r show ?thesis by simp
qed


lemma entries_Some:
  "entries s i = Some es \<longleftrightarrow> (\<exists>c. path (heap s) i (head s) c \<and> es = map (entry_at s) c)"
  unfolding entries_def entry_at_def by (auto simp: level_chain_iff)

lemma fst_entry_at [simp]: "fst (entry_at s p) = key_at (heap s) p"
  and snd_entry_at [simp]: "snd (entry_at s p) = val_at (heap s) p"
  by (simp_all add: entry_at_def)

lemma first_eq_absent:
  assumes "\<forall>q \<in> set c. f q \<noteq> K"
  shows "first_eq f K c = None"
proof -
  have "f q \<noteq> K" if "dropWhile (\<lambda>q. f q < K) c = q # R" for q R
    using set_dropWhileD [of q "\<lambda>q. f q < K" c] that assms by simp
  then show ?thesis by (simp add: first_eq_def split: list.split)
qed

lemma search_absent_wf:
  assumes "well_formed s" "entries s 0 = Some es" "K \<notin> fst ` set es"
  shows "searchNode s K = Some (if K = KEY_MIN then Some (head s) else None)"
    and "search s K = Some (if K = KEY_MIN then val_at (heap s) (head s) else VALUE_MIN)"
proof -
  from assms(2) obtain c0 where c0: "path (heap s) 0 (head s) c0" and es: "es = map (entry_at s) c0"
    by (auto simp: entries_Some)
  have "\<forall>q \<in> set c0. key_at (heap s) q \<noteq> K"
    using assms(3) es by (auto simp: image_iff)
  from searchNode_absent [OF assms(1) c0 this]
  show sn: "searchNode s K = Some (if K = KEY_MIN then Some (head s) else None)" .
  from path_next_defined [OF c0, of "head s"] obtain n where n: "deref (heap s) (head s) = Some n"
    by (auto dest: next_at_deref)
  then have "val n = val_at (heap s) (head s)" by (simp add: val_at_def)
  with sn n show "search s K = Some (if K = KEY_MIN then val_at (heap s) (head s) else VALUE_MIN)"
    by (simp add: search_def)
qed


lemma entry_lt_int:
  "entry_lt a b \<longleftrightarrow>
     sint (fst a) < sint (fst b) \<or> (sint (fst a) = sint (fst b) \<and> sint (snd a) < sint (snd b))"
  by (simp add: entry_lt_def sint_eq_iff)

lemma entry_lt_trans1: "\<not> entry_lt b a \<Longrightarrow> entry_lt b c \<Longrightarrow> entry_lt a c"
  unfolding entry_lt_int by linarith

lemma entry_lt_trans2: "\<not> entry_lt a c \<Longrightarrow> \<not> entry_lt b a \<Longrightarrow> \<not> entry_lt b c"
  unfolding entry_lt_int by linarith

lemma lt_at_entry_lt: "lt_at (heap s) k v p = entry_lt (entry_at s p) (k, v)"
  by (simp add: lt_at_def entry_lt_int ikey_def)

lemma sorted_wrt_last: "sorted_wrt R xs \<Longrightarrow> x \<in> set xs \<Longrightarrow> x = last xs \<or> R x (last xs)"
  by (induction xs) (auto split: if_splits)

lemma sorted_wrt_hd: "sorted_wrt R xs \<Longrightarrow> x \<in> set xs \<Longrightarrow> x = hd xs \<or> R (hd xs) x"
  by (cases xs) auto

lemma placed_sorted_split:
  assumes "placed (lt_at (heap s) k v) node c c'"
    and "sorted_wrt (\<lambda>a b. \<not> entry_lt (entry_at s b) (entry_at s a)) c"
  shows "\<exists>X Y. c = X @ Y \<and> c' = X @ node # Y \<and>
           (\<forall>p \<in> set X. entry_lt (entry_at s p) (k, v)) \<and>
           (\<forall>p \<in> set Y. \<not> entry_lt (entry_at s p) (k, v))"
proof -
  let ?R = "\<lambda>a b. \<not> entry_lt (entry_at s b) (entry_at s a)"
  from assms(1) obtain X Y where c: "c = X @ Y" and c': "c' = X @ node # Y"
    and X: "X = [] \<or> entry_lt (entry_at s (last X)) (k, v)"
    and Y: "Y = [] \<or> \<not> entry_lt (entry_at s (hd Y)) (k, v)"
    by (auto simp: placed_def lt_at_entry_lt)
  have sX: "sorted_wrt ?R X" and sY: "sorted_wrt ?R Y"
    using assms(2) c by (simp_all add: sorted_wrt_append)
  have 1: "entry_lt (entry_at s p) (k, v)" if "p \<in> set X" for p
  proof -
    from that X have l: "entry_lt (entry_at s (last X)) (k, v)" by auto
    from sorted_wrt_last [OF sX that] show ?thesis
    proof
      assume "p = last X" with l show ?thesis by simp
    next
      assume "\<not> entry_lt (entry_at s (last X)) (entry_at s p)"
      then show ?thesis using l by (rule entry_lt_trans1)
    qed
  qed
  have 2: "\<not> entry_lt (entry_at s p) (k, v)" if "p \<in> set Y" for p
  proof -
    from that Y have l: "\<not> entry_lt (entry_at s (hd Y)) (k, v)" by auto
    from sorted_wrt_hd [OF sY that] show ?thesis
    proof
      assume "p = hd Y" with l show ?thesis by simp
    next
      assume "\<not> entry_lt (entry_at s p) (entry_at s (hd Y))"
      with l show ?thesis by (rule entry_lt_trans2)
    qed
  qed
  from c c' 1 2 show ?thesis by (intro exI [of _ X] exI [of _ Y]) simp
qed


lemma insert_levels_by_comparator:
  "insert_levels_by comparator i h lv k v node p = insert_levels i h lv k v node p"
proof -
  have c: "insert_cond_by comparator k v = insert_cond k v"
    by (rule ext) (simp add: insert_cond_by_def insert_cond_def)
  show ?thesis by (induction i arbitrary: h p) (simp_all add: c)
qed

lemma insert_by_comparator: "insert_by comparator s k v rd = insert_kv s k v rd"
  by (simp add: insert_by_def insert_kv_def insert_levels_by_comparator)

lemma searchNode_levels_by_comparator:
  "searchNode_levels_by comparator i h k p = searchNode_levels i h k p"
proof -
  have c: "search_cond_by comparator k = search_cond k"
    by (rule ext) (simp add: search_cond_by_def search_cond_def)
  show ?thesis
  proof (induction i arbitrary: p)
    case 0
    show ?case by simp
  next
    case (Suc i)
    have "searchNode_levels_by comparator i h k = searchNode_levels i h k"
      by (rule ext) (rule Suc.IH)
    then show ?case by (simp add: c)
  qed
qed

lemma search_by_comparator: "search_by comparator s k = search s k"
  by (simp add: search_by_def search_def searchNode_by_def searchNode_def
      searchNode_levels_by_comparator)

section \<open>Properties of the operations\<close>

subsection \<open>The concrete containers are reachable\<close>

lemma run_one_entry: "construct_and_run [Insert 5 7 0] = Some one_entry"
  by code_simp

lemma run_head_overwritten: "construct_and_run [Update KEY_MIN 5] = Some head_overwritten"
  by code_simp

lemma run_two_levels:
  "construct_and_run [Insert 3 1 1, Insert 5 1 1, Insert 4 1 0] = Some two_levels"
  by code_simp

lemma reachable_one_entry: "reachable one_entry"
  unfolding reachable_def using run_one_entry by blast

lemma reachable_head_overwritten: "reachable head_overwritten"
  unfolding reachable_def using run_head_overwritten by blast

lemma reachable_two_levels: "reachable two_levels"
  unfolding reachable_def using run_two_levels by blast

lemma entries_one_entry: "entries one_entry 0 = Some [(5, 7)]"
  by code_simp

lemma level_chain_one_entry: "level_chain one_entry 0 = Some [1]"
  by code_simp

subsection \<open>insert\<close>

text \<open>
  Claim C1, as the code has it. In a reachable container whose level-0 entries are in
  (key, value) order, \<^verbatim>\<open>insert(k, v)\<close> succeeds and keeps every node of the level-0
  chain with its entry (no deduplication); the new node goes between a front part \<open>X\<close>
  whose entries are all strictly less than \<open>(k, v)\<close> and a back part \<open>Y\<close> whose entries
  are not. So it stands after the equal-key entries with a smaller value and before the
  equal-key entries with an equal or larger value.
\<close>

theorem insert_kv_placement:
  assumes r: "reachable s" and lc: "level_chain s 0 = Some c0"
    and srt: "sorted_wrt (\<lambda>a b. \<not> entry_lt b a) (map (entry_at s) c0)"
  shows "\<exists>s' X Y. insert_kv s k v rd = Some (0, s') \<and> c0 = X @ Y \<and>
           level_chain s' 0 = Some (X @ length (heap s) # Y) \<and>
           entry_at s' (length (heap s)) = (k, v) \<and>
           (\<forall>p \<in> set c0. entry_at s' p = entry_at s p) \<and>
           (\<forall>p \<in> set X. entry_lt (entry_at s p) (k, v)) \<and>
           (\<forall>p \<in> set Y. \<not> entry_lt (entry_at s p) (k, v))"
proof -
  let ?h = "heap s" and ?hp = "head s"
  let ?node = "length ?h"
  have wf: "well_formed s" using r by (rule reachable_wf)
  have c0: "path ?h 0 ?hp c0" using lc by (simp add: level_chain_iff)
  from well_formed_chain0 [OF wf c0] obtain cs where
    ok: "chains_ok ?h ?hp MAX_LEVEL cs" and cs0: "cs 0 = c0" by blast
  have pos: "0 < MAX_LEVEL" by (simp add: MAX_LEVEL_def)
  from insert_kv_wf [OF wf ok, of rd k v]
  obtain lv h1 cs1 where lv: "0 < lv"
    and ins: "insert_kv s k v rd = Some (0, s\<lparr>maxLevel := max (maxLevel s) lv, heap := h1\<rparr>)"
    and ok1: "chains_ok h1 ?hp MAX_LEVEL cs1"
    and pl: "\<forall>i<MAX_LEVEL. if i < lv then placed (lt_at ?h k v) ?node (cs i) (cs1 i)
                else cs1 i = cs i"
    and kv: "\<forall>q<?node. key_at h1 q = key_at ?h q \<and> val_at h1 q = val_at ?h q"
    and kvn: "key_at h1 ?node = k" "val_at h1 ?node = v"
    by blast
  let ?s1 = "s\<lparr>maxLevel := max (maxLevel s) lv, heap := h1\<rparr>"
  from pl lv pos cs0 have pl0: "placed (lt_at ?h k v) ?node c0 (cs1 0)" by auto
  have srt': "sorted_wrt (\<lambda>a b. \<not> entry_lt (entry_at s b) (entry_at s a)) c0"
    using srt by (simp add: sorted_wrt_map)
  from placed_sorted_split [OF pl0 srt']
  obtain X Y where XY: "c0 = X @ Y" and c1: "cs1 0 = X @ ?node # Y"
    and X: "\<forall>p \<in> set X. entry_lt (entry_at s p) (k, v)"
    and Y: "\<forall>p \<in> set Y. \<not> entry_lt (entry_at s p) (k, v)"
    by (elim exE conjE) (rule that)
  have "path (heap ?s1) 0 (head ?s1) (X @ ?node # Y)"
    using chains_ok_path [OF ok1 pos] c1 by simp
  then have lc1: "level_chain ?s1 0 = Some (X @ ?node # Y)" by (simp only: level_chain_iff)
  have en: "entry_at ?s1 ?node = (k, v)" using kvn by (simp add: entry_at_def)
  have eo: "\<forall>p \<in> set c0. entry_at ?s1 p = entry_at s p"
    using kv path_bound [OF c0] by (simp add: entry_at_def)
  from ins XY lc1 en eo X Y show ?thesis
    by (intro exI [of _ ?s1] exI [of _ X] exI [of _ Y] conjI)
qed

theorem insert_kv_placement_witness:
  "reachable one_entry \<and> level_chain one_entry 0 = Some [1] \<and>
   sorted_wrt (\<lambda>a b. \<not> entry_lt b a) (map (entry_at one_entry) [1]) \<and>
   (\<exists>s' X Y. insert_kv one_entry 5 8 0 = Some (0, s') \<and> [1] = X @ Y \<and>
      level_chain s' 0 = Some (X @ length (heap one_entry) # Y) \<and>
      entry_at s' (length (heap one_entry)) = (5, 8) \<and>
      (\<forall>p \<in> set [1]. entry_at s' p = entry_at one_entry p) \<and>
      (\<forall>p \<in> set X. entry_lt (entry_at one_entry p) (5, 8)) \<and>
      (\<forall>p \<in> set Y. \<not> entry_lt (entry_at one_entry p) (5, 8)))"
proof -
  have srt: "sorted_wrt (\<lambda>a b. \<not> entry_lt b a) (map (entry_at one_entry) [1])" by simp
  from insert_kv_placement [OF reachable_one_entry level_chain_one_entry srt, of 5 8 0]
  show ?thesis using reachable_one_entry level_chain_one_entry srt by blast
qed

text \<open>
  Claim C1 as stated fails. The container holds \<open>(5, 7)\<close> at address 1, and
  \<^verbatim>\<open>insert(5, 7)\<close> puts the new node, address 2, before it, although the value of the
  existing entry is less than or equal to the new value. And after \<^verbatim>\<open>insert(5, 1)\<close>,
  \<^verbatim>\<open>insert(5, 9)\<close> and \<^verbatim>\<open>update(5, 0)\<close> the entries are \<open>(5, 1), (5, 0)\<close>, no longer in
  (key, value) order, and \<^verbatim>\<open>insert(5, 1)\<close> puts the new node, address 3, before both, the
  second of which has a smaller value.
\<close>

theorem insert_kv_placement_counterexample:
  "level_chain one_entry 0 = Some [1] \<and> entry_at one_entry 1 = (5, 7) \<and>
   map_option (\<lambda>(r, s'). (level_chain s' 0, entries s' 0)) (insert_kv one_entry 5 7 0) =
     Some (Some [2, 1], Some [(5, 7), (5, 7)]) \<and>
   map_option (\<lambda>s. (level_chain s 0, entries s 0))
     (construct_and_run [Insert 5 1 0, Insert 5 9 0, Update 5 0]) =
     Some (Some [1, 2], Some [(5, 1), (5, 0)]) \<and>
   map_option (\<lambda>s. (level_chain s 0, entries s 0))
     (construct_and_run [Insert 5 1 0, Insert 5 9 0, Update 5 0, Insert 5 1 0]) =
     Some (Some [3, 1, 2], Some [(5, 1), (5, 1), (5, 0)])"
  by code_simp

subsection \<open>insert, remove, search\<close>




subsection \<open>update\<close>




subsection \<open>search\<close>






subsection \<open>remove of an absent key\<close>

text \<open>
  Claim C10. In a reachable container that stores no node with key \<open>K\<close>,
  \<^verbatim>\<open>remove(K)\<close> returns \<^verbatim>\<open>ValueType(-1)\<close>, which is not the value \<open>VALUE_MIN\<close> that
  search uses for an absent key, and the container afterwards is the container before:
  every node and every link is unchanged.
\<close>

theorem remove_absent_key:
  assumes r: "reachable s" and es: "entries s 0 = Some es" and K: "K \<notin> fst ` set es"
  shows "remove s K = Some (MINUS_ONE, s) \<and> MINUS_ONE \<noteq> VALUE_MIN"
proof -
  have wf: "well_formed s" using r by (rule reachable_wf)
  from es obtain c0 where c0: "path (heap s) 0 (head s) c0" and esc: "es = map (entry_at s) c0"
    by (auto simp: entries_Some)
  have "\<forall>q \<in> set c0. ikey (heap s) q \<noteq> sint K"
    using K esc by (auto simp: ikey_def sint_eq_iff image_iff)
  then have fe: "first_eq (ikey (heap s)) (sint K) c0 = None" by (rule first_eq_absent)
  from remove_wf [OF wf c0, of K] fe have "remove s K = Some (MINUS_ONE, s)" by auto
  moreover have "MINUS_ONE \<noteq> VALUE_MIN" by (simp add: MINUS_ONE_def VALUE_MIN_def)
  ultimately show ?thesis by simp
qed

theorem remove_absent_key_witness:
  "reachable one_entry \<and> entries one_entry 0 = Some [(5, 7)] \<and>
   (6 :: KeyType) \<notin> fst ` set [(5 :: KeyType, 7 :: ValueType)] \<and>
   remove one_entry 6 = Some (MINUS_ONE, one_entry) \<and> MINUS_ONE \<noteq> VALUE_MIN"
proof -
  have k: "(6 :: KeyType) \<notin> fst ` set [(5 :: KeyType, 7 :: ValueType)]" by simp
  from remove_absent_key [OF reachable_one_entry entries_one_entry k]
  show ?thesis using reachable_one_entry entries_one_entry k by simp
qed

subsection \<open>clear\<close>

lemma insert_into_empty:
  assumes wf: "well_formed s" and empty: "\<forall>i<MAX_LEVEL. path (heap s) i (head s) []"
  shows "\<exists>lv s2. randomLevel MAX_LEVEL rd = Some lv \<and> insert_kv s k v rd = Some (0, s2) \<and>
           (\<forall>i<MAX_LEVEL. entries s2 i = Some (if i < lv then [(k, v)] else []))"
proof -
  let ?h = "heap s" and ?hp = "head s"
  have ok: "chains_ok ?h ?hp MAX_LEVEL (\<lambda>_. [])"
    using empty by (simp add: chains_ok_def)
  from insert_kv_wf [OF wf ok, of rd k v]
  obtain lv h1 cs1 where lv: "randomLevel MAX_LEVEL rd = Some lv"
    and ins: "insert_kv s k v rd = Some (0, s\<lparr>maxLevel := max (maxLevel s) lv, heap := h1\<rparr>)"
    and ok1: "chains_ok h1 ?hp MAX_LEVEL cs1"
    and pl: "\<forall>i<MAX_LEVEL. if i < lv then placed (lt_at ?h k v) (length ?h) [] (cs1 i)
                else cs1 i = []"
    and kvn: "key_at h1 (length ?h) = k" "val_at h1 (length ?h) = v"
    by blast
  let ?s1 = "s\<lparr>maxLevel := max (maxLevel s) lv, heap := h1\<rparr>"
  have "entries ?s1 i = Some (if i < lv then [(k, v)] else [])" if i: "i < MAX_LEVEL" for i
  proof -
    have c: "cs1 i = (if i < lv then [length ?h] else [])"
      using pl i by (auto simp: placed_def)
    have "path (heap ?s1) i (head ?s1) (cs1 i)" using chains_ok_path [OF ok1 i] by simp
    then have "entries ?s1 i = Some (map (entry_at ?s1) (cs1 i))"
      by (auto simp: entries_Some)
    with c kvn show ?thesis by (simp add: entry_at_def)
  qed
  with lv ins show ?thesis by blast
qed

lemma ctor_empty: "i < MAX_LEVEL \<Longrightarrow>
    path (heap empty_container) i (head empty_container) []"
  by (simp add: empty_container_def MAX_LEVEL_def next_at_def deref_def)

text \<open>
  Claim C5, as the code has it. In a reachable container \<^verbatim>\<open>clear()\<close> returns; after
  it every link of the head, at all \<open>MAX_LEVEL\<close> levels, is null; every search for a key
  other than the least key returns the absent value, and a search for the least key
  returns the value stored in the head sentinel, which clear leaves as it was; a second
  \<^verbatim>\<open>clear()\<close> changes nothing; and an insert succeeds and gives every level the same
  entries as the same insert on a freshly constructed container.
\<close>

theorem clear_resets:
  assumes r: "reachable s"
  shows "\<exists>s'. clear s = Some s' \<and>
     (\<forall>i<MAX_LEVEL. next_at (heap s') (head s') i = Some None) \<and>
     (\<forall>K. K \<noteq> KEY_MIN \<longrightarrow> search s' K = Some VALUE_MIN) \<and>
     search s' KEY_MIN = Some (val_at (heap s) (head s)) \<and>
     clear s' = Some s' \<and>
     (\<forall>k v rd. \<exists>f1 s2.
         do { f \<leftarrow> SkipList_ctor (of_nat MAX_LEVEL); insert_kv f k v rd } = Some (0, f1) \<and>
         insert_kv s' k v rd = Some (0, s2) \<and> (\<forall>i<MAX_LEVEL. entries s2 i = entries f1 i))"
proof -
  have wf: "well_formed s" using r by (rule reachable_wf)
  from clear_wf [OF wf] obtain h' where cl: "clear s = Some (s\<lparr>heap := h'\<rparr>)"
    and wf': "well_formed (s\<lparr>heap := h'\<rparr>)"
    and emp: "\<forall>i<MAX_LEVEL. path h' i (head s) []"
    and hv: "val_at h' (head s) = val_at (heap s) (head s)"
    by blast
  let ?s' = "s\<lparr>heap := h'\<rparr>"
  have pos: "0 < MAX_LEVEL" by (simp add: MAX_LEVEL_def)
  have links: "\<forall>i<MAX_LEVEL. next_at (heap ?s') (head ?s') i = Some None"
    using emp by simp
  have e0: "entries ?s' 0 = Some []" using emp pos by (simp add: entries_Some)
  have se: "search ?s' K = Some (if K = KEY_MIN then val_at (heap s) (head s) else VALUE_MIN)" for K
    using search_absent_wf(2) [OF wf' e0, of K] hv by simp
  from clear_wf [OF wf'] emp pos have again: "clear ?s' = Some ?s'" by auto
  have ins: "\<exists>f1 s2.
         do { f \<leftarrow> SkipList_ctor (of_nat MAX_LEVEL); insert_kv f k v rd } = Some (0, f1) \<and>
         insert_kv ?s' k v rd = Some (0, s2) \<and> (\<forall>i<MAX_LEVEL. entries s2 i = entries f1 i)"
    for k v rd
  proof -
    from insert_into_empty [OF well_formed_ctor, of rd k v] ctor_empty
    obtain lv f1 where a: "randomLevel MAX_LEVEL rd = Some lv"
      "insert_kv empty_container k v rd = Some (0, f1)"
      "\<forall>i<MAX_LEVEL. entries f1 i = Some (if i < lv then [(k, v)] else [])"
      by blast
    from insert_into_empty [OF wf', of rd k v] emp
    obtain lv' s2 where b: "randomLevel MAX_LEVEL rd = Some lv'"
      "insert_kv ?s' k v rd = Some (0, s2)"
      "\<forall>i<MAX_LEVEL. entries s2 i = Some (if i < lv' then [(k, v)] else [])"
      by auto
    from a(1) b(1) have "lv' = lv" by simp
    with a b show ?thesis by (auto simp: SkipList_ctor_default)
  qed
  show ?thesis
    using cl links se again ins by (intro exI [of _ ?s']) simp
qed

theorem clear_resets_witness:
  "reachable one_entry \<and>
   (\<exists>s'. clear one_entry = Some s' \<and>
     (\<forall>i<MAX_LEVEL. next_at (heap s') (head s') i = Some None) \<and>
     (\<forall>K. K \<noteq> KEY_MIN \<longrightarrow> search s' K = Some VALUE_MIN) \<and>
     search s' KEY_MIN = Some (val_at (heap one_entry) (head one_entry)) \<and>
     clear s' = Some s' \<and>
     (\<forall>k v rd. \<exists>f1 s2.
         do { f \<leftarrow> SkipList_ctor (of_nat MAX_LEVEL); insert_kv f k v rd } = Some (0, f1) \<and>
         insert_kv s' k v rd = Some (0, s2) \<and> (\<forall>i<MAX_LEVEL. entries s2 i = entries f1 i)))"
  using clear_resets [OF reachable_one_entry] reachable_one_entry by simp

text \<open>
  Claim C5 as stated fails: after \<^verbatim>\<open>update(KEY_MIN, 5)\<close> and \<^verbatim>\<open>clear()\<close>,
  \<^verbatim>\<open>search(KEY_MIN)\<close> returns 5, which is not the absent value.
\<close>

theorem clear_resets_counterexample:
  "reachable head_overwritten \<and>
   (do { s' \<leftarrow> clear head_overwritten; y \<leftarrow> search s' KEY_MIN; Some (y, y = VALUE_MIN) })
     = Some (5, False)"
proof -
  have "(do { s' \<leftarrow> clear head_overwritten; y \<leftarrow> search s' KEY_MIN; Some (y, y = VALUE_MIN) })
     = Some (5, False)" by code_simp
  with reachable_head_overwritten show ?thesis by simp
qed

subsection \<open>Order of the chains\<close>

text \<open>
  Claim C6, as the code has it. In every reachable container, at every level below
  \<open>MAX_LEVEL\<close>, the chain from the head ends in null, is a subsequence of the level-0
  chain, and its keys never decrease. They increase strictly whenever no two nodes of
  the level-0 chain have the same key.
\<close>

theorem chains_sorted:
  assumes r: "reachable s" and i: "i < MAX_LEVEL"
  shows "\<exists>c c0. level_chain s i = Some c \<and> level_chain s 0 = Some c0 \<and> subseq c c0 \<and>
           sorted (map (\<lambda>p. sint (key_at (heap s) p)) c) \<and>
           (distinct (map (key_at (heap s)) c0) \<longrightarrow>
              sorted_wrt (<) (map (\<lambda>p. sint (key_at (heap s) p)) c))"
proof -
  have wf: "well_formed s" using r by (rule reachable_wf)
  from well_formedD(1) [OF wf] obtain cs where ok: "chains_ok (heap s) (head s) MAX_LEVEL cs"
    by blast
  have pos: "0 < MAX_LEVEL" by (simp add: MAX_LEVEL_def)
  have li: "level_chain s i = Some (cs i)" and l0: "level_chain s 0 = Some (cs 0)"
    using chains_ok_path [OF ok i] chains_ok_path [OF ok pos] by (simp_all add: level_chain_iff)
  have sub: "subseq (cs i) (cs 0)" using chains_ok_subseq [OF ok i, of 0] by simp
  have ik: "ikey (heap s) = (\<lambda>p. sint (key_at (heap s) p))"
    by (rule ext) (simp add: ikey_def)
  have srt: "sorted (map (\<lambda>p. sint (key_at (heap s) p)) (cs i))"
    using chains_ok_sorted [OF ok i] by (simp add: ik)
  have "sorted_wrt (<) (map (\<lambda>p. sint (key_at (heap s) p)) (cs i))"
    if d: "distinct (map (key_at (heap s)) (cs 0))"
  proof -
    have "subseq (map (key_at (heap s)) (cs i)) (map (key_at (heap s)) (cs 0))"
      using sub by (rule subseq_map)
    then have "distinct (map (key_at (heap s)) (cs i))" using d by (rule subseq_distinct)
    then have "distinct (map sint (map (key_at (heap s)) (cs i)))"
      by (subst distinct_map) (auto simp: inj_on_def sint_eq_iff)
    then have "distinct (map (\<lambda>p. sint (key_at (heap s) p)) (cs i))"
      by (simp add: comp_def)
    with srt show ?thesis by (simp add: strict_sorted_iff)
  qed
  with li l0 sub srt show ?thesis by blast
qed

theorem chains_sorted_witness:
  "reachable two_levels \<and> (1 :: nat) < MAX_LEVEL \<and>
   level_chain two_levels 1 = Some [1, 2] \<and> level_chain two_levels 0 = Some [1, 3, 2] \<and>
   entries two_levels 1 = Some [(3, 1), (5, 1)] \<and>
   entries two_levels 0 = Some [(3, 1), (4, 1), (5, 1)] \<and>
   subseq [1, 2 :: nat] [1, 3, 2] \<and>
   sorted (map (\<lambda>p. sint (key_at (heap two_levels) p)) [1, 2]) \<and>
   distinct (map (key_at (heap two_levels)) [1, 3, 2]) \<and>
   sorted_wrt (<) (map (\<lambda>p. sint (key_at (heap two_levels) p)) [1, 2])"
proof -
  have pos: "(1 :: nat) < MAX_LEVEL" by (simp add: MAX_LEVEL_def)
  have l1: "level_chain two_levels 1 = Some [1, 2]" by code_simp
  have l0: "level_chain two_levels 0 = Some [1, 3, 2]" by code_simp
  have e1: "entries two_levels 1 = Some [(3, 1), (5, 1)]" by code_simp
  have e0: "entries two_levels 0 = Some [(3, 1), (4, 1), (5, 1)]" by code_simp
  have d: "distinct (map (key_at (heap two_levels)) [1, 3, 2])" by code_simp
  from chains_sorted [OF reachable_two_levels pos] l1 l0 d
  show ?thesis using reachable_two_levels pos e1 e0 by simp
qed

text \<open>
  Claim C6 as stated fails: after \<^verbatim>\<open>insert(5, 1)\<close> and \<^verbatim>\<open>insert(5, 2)\<close> the level-0
  chain holds the key 5 twice.
\<close>

theorem chains_sorted_counterexample:
  "map_option (\<lambda>s. entries s 0) (construct_and_run [Insert 5 1 0, Insert 5 2 0]) =
     Some (Some [(5, 1), (5, 2)])"
  by code_simp

subsection \<open>Construction\<close>

lemma insert_levels_short_head:
  assumes "deref h hp = Some n" "length (level n) \<le> i"
  shows "insert_levels (Suc i) h lv k v node hp = None"
proof -
  have "next_at h hp i = None" using assms by (simp add: next_at_def)
  then have "advance (length h) h i (insert_cond k v) hp = None"
    by (cases "length h") simp_all
  then show ?thesis by simp
qed

lemma ctor_zero:
  "SkipList_ctor 0 =
     Some \<lparr>maxLevel = 0, head = 0,
           heap = [Some \<lparr>key = KEY_MIN, val = VALUE_MIN, level = []\<rparr>]\<rparr>"
  by code_simp

lemma search_by_ctor: "search_by cmp empty_container k = Some VALUE_MIN"
  by (simp add: search_by_def searchNode_by_def empty_container_def deref_def)

text \<open>
  Claim C8, as the code has it. Nothing is checked at construction. With a maximum level
  count of 0 the constructor returns a container whose head has no link; search, update
  and remove answer on it as on an empty container, and the behaviour of clear (which
  the destructor calls) and of every insert is undefined: they index the empty link array
  of the head. The comparator is never called at construction: whatever it is, the
  default-constructed container answers every search with the absent value. With the
  comparator that returns \<open>-1\<close> for every pair, which is not a total order,
  \<^verbatim>\<open>insert(2, 0)\<close> and \<^verbatim>\<open>insert(1, 0)\<close> succeed and leave the level-0 chain out of
  order, and \<^verbatim>\<open>search(2)\<close> then reports the stored key 2 absent.
\<close>

theorem ctor_never_rejects:
  "(\<exists>s. SkipList_ctor 0 = Some s \<and>
        search s k = Some VALUE_MIN \<and>
        update s k v = (if k = KEY_MIN then Some (0, s\<lparr>heap := [Some \<lparr>key = KEY_MIN, val = v, level = []\<rparr>]\<rparr>)
                        else Some (1, s)) \<and>
        remove s k = Some (MINUS_ONE, s) \<and>
        clear s = None \<and>
        insert_kv s k v rd = None) \<and>
   (\<exists>s0 s1 s2. SkipList_ctor (of_nat MAX_LEVEL) = Some s0 \<and>
        (\<forall>cmp k'. search_by cmp s0 k' = Some VALUE_MIN) \<and>
        insert_by always_less s0 2 0 0 = Some (0, s1) \<and>
        insert_by always_less s1 1 0 0 = Some (0, s2) \<and>
        entries s2 0 = Some [(2, 0), (1, 0)] \<and>
        search_by always_less s2 2 = Some VALUE_MIN)"
proof -
  let ?n = "\<lparr>key = KEY_MIN, val = VALUE_MIN, level = []\<rparr>"
  let ?z = "\<lparr>maxLevel = 0, head = 0, heap = [Some ?n]\<rparr>"
  have se: "search ?z k = Some VALUE_MIN"
    by (simp add: search_def searchNode_def deref_def)
  have up: "update ?z k v =
      (if k = KEY_MIN then Some (0, ?z\<lparr>heap := [Some \<lparr>key = KEY_MIN, val = v, level = []\<rparr>]\<rparr>)
       else Some (1, ?z))"
    by (simp add: update_def searchNode_def deref_def)
  have re: "remove ?z k = Some (MINUS_ONE, ?z)"
    by (simp add: remove_def delete_node_def)
  have cl: "clear ?z = None"
    by (simp add: clear_def next_at_def deref_def)
  from randomLevel_MAX_LEVEL [of rd] obtain lv where
    lv: "randomLevel MAX_LEVEL rd = Some lv" "0 < lv" by blast
  then obtain i where i: "lv = Suc i" by (cases lv) auto
  let ?h = "[Some ?n, Some \<lparr>key = k, val = v, level = replicate lv None\<rparr>]"
  have d: "deref ?h 0 = Some ?n" by (simp add: deref_def)
  have l: "length (level ?n) \<le> i" by simp
  have "insert_levels (Suc i) ?h lv k v 1 0 = None"
    using d l by (rule insert_levels_short_head)
  then have ins: "insert_kv ?z k v rd = None"
    using lv(1) i by (simp add: insert_kv_def createNode_def)
  have zero: "\<exists>s. SkipList_ctor 0 = Some s \<and> search s k = Some VALUE_MIN \<and>
        update s k v = (if k = KEY_MIN then Some (0, s\<lparr>heap := [Some \<lparr>key = KEY_MIN, val = v, level = []\<rparr>]\<rparr>)
                        else Some (1, s)) \<and>
        remove s k = Some (MINUS_ONE, s) \<and> clear s = None \<and> insert_kv s k v rd = None"
    using ctor_zero se up re cl ins by (intro exI [of _ ?z] conjI)
  have run: "\<exists>s1 s2. insert_by always_less empty_container 2 0 0 = Some (0, s1) \<and>
        insert_by always_less s1 1 0 0 = Some (0, s2) \<and>
        entries s2 0 = Some [(2, 0), (1, 0)] \<and>
        search_by always_less s2 2 = Some VALUE_MIN"
  proof -
    have "(do { (r1, s1) \<leftarrow> insert_by always_less empty_container 2 0 0;
                (r2, s2) \<leftarrow> insert_by always_less s1 1 0 0;
                y \<leftarrow> search_by always_less s2 2;
                Some (r1, r2, entries s2 0, y = VALUE_MIN) })
          = Some (0, 0, Some [(2, 0), (1, 0)], True)"
      by code_simp
    then show ?thesis by (auto split: Option.bind_splits)
  qed
  from zero run show ?thesis
    using SkipList_ctor_default search_by_ctor by blast
qed

text \<open>
  Claim C8 as stated fails: a maximum level count of 0 is accepted at construction, and
  the undefined behaviour comes later, with clear or insert; and a container can be used
  with the comparator that calls every pair less, which is not a total order.
\<close>

theorem ctor_never_rejects_counterexample:
  "SkipList_ctor 0 =
     Some \<lparr>maxLevel = 0, head = 0,
           heap = [Some \<lparr>key = KEY_MIN, val = VALUE_MIN, level = []\<rparr>]\<rparr> \<and>
   do { s \<leftarrow> SkipList_ctor 0; search s 99 } = Some VALUE_MIN \<and>
   do { s \<leftarrow> SkipList_ctor 0; clear s } = None \<and>
   do { s \<leftarrow> SkipList_ctor 0; insert_kv s 5 7 0 } = None \<and>
   do { s \<leftarrow> SkipList_ctor (of_nat MAX_LEVEL);
        (r1, s1) \<leftarrow> insert_by always_less s 2 0 0;
        (r2, s2) \<leftarrow> insert_by always_less s1 1 0 0;
        y \<leftarrow> search_by always_less s2 2;
        Some (entries s2 0, y) } = Some (Some [(2, 0), (1, 0)], VALUE_MIN)"
  by code_simp

subsection \<open>The level selector and the configured maximum\<close>

text \<open>
  Claim C7 fails on the code for a configured maximum other than 32. In
  \<^verbatim>\<open>SkipList<int, int, 4>\<close> the head has four links; for the drawn word \<open>0x1F\<close> the
  selector returns the height 6, above the configured maximum, and the behaviour of
  \<^verbatim>\<open>insert(6, 8)\<close> is undefined: it indexes the head's link array at 5.
\<close>

theorem randomLevel_exceeds_configured_maximum:
  "map_option (\<lambda>s. map_option (\<lambda>n. length (level n)) (deref (heap s) (head s)))
     (SkipList_ctor 4) = Some (Some 4) \<and>
   randomLevel MAX_LEVEL 0x1F = Some 6 \<and>
   do { s \<leftarrow> SkipList_ctor 4; insert_kv s 6 8 0x1F } = None"
  by code_simp

subsection \<open>Further properties\<close>

text \<open>
  Every sequence of insert, update, remove and clear calls on a default-constructed
  container runs to its end, whatever words are drawn: every call returns, and none has
  undefined behaviour.
\<close>

theorem operations_defined:
  "\<exists>s. construct_and_run ops = Some s"
  using run_wf [OF well_formed_ctor, of ops] by (auto simp: construct_and_run_eq)

text \<open>
  In a reachable container that stores no node with key \<open>K\<close>, a search for \<open>K\<close> right
  after \<^verbatim>\<open>insert(K, V)\<close> returns \<open>V\<close>, the least key included.
\<close>

theorem insert_then_search:
  assumes r: "reachable s" and es: "entries s 0 = Some es" and K: "K \<notin> fst ` set es"
  shows "\<exists>s1. insert_kv s K V rd = Some (0, s1) \<and> search s1 K = Some V"
proof -
  let ?h = "heap s" and ?hp = "head s"
  let ?node = "length ?h"
  have wf: "well_formed s" using r by (rule reachable_wf)
  from es obtain c0 where c0: "path ?h 0 ?hp c0" and esc: "es = map (entry_at s) c0"
    by (auto simp: entries_Some)
  have nk: "\<forall>q \<in> set c0. key_at ?h q \<noteq> K" using K esc by (auto simp: image_iff)
  from well_formed_chain0 [OF wf c0] obtain cs where
    ok: "chains_ok ?h ?hp MAX_LEVEL cs" and cs0: "cs 0 = c0" by blast
  have pos: "0 < MAX_LEVEL" by (simp add: MAX_LEVEL_def)
  from insert_kv_wf [OF wf ok, of rd K V]
  obtain lv h1 cs1 where lv: "0 < lv"
    and ins: "insert_kv s K V rd = Some (0, s\<lparr>maxLevel := max (maxLevel s) lv, heap := h1\<rparr>)"
    and wf1: "well_formed (s\<lparr>maxLevel := max (maxLevel s) lv, heap := h1\<rparr>)"
    and ok1: "chains_ok h1 ?hp MAX_LEVEL cs1"
    and pl: "\<forall>i<MAX_LEVEL. if i < lv then placed (lt_at ?h K V) ?node (cs i) (cs1 i)
                else cs1 i = cs i"
    and kv: "\<forall>q<?node. key_at h1 q = key_at ?h q \<and> val_at h1 q = val_at ?h q"
    and kvn: "key_at h1 ?node = K" "val_at h1 ?node = V"
    by blast
  let ?s1 = "s\<lparr>maxLevel := max (maxLevel s) lv, heap := h1\<rparr>"
  from pl lv pos cs0 have "placed (lt_at ?h K V) ?node c0 (cs1 0)" by auto
  then obtain X Y where XY: "c0 = X @ Y" and c1: "cs1 0 = X @ ?node # Y"
    by (auto simp: placed_def)
  have p1: "path (heap ?s1) 0 (head ?s1) (X @ ?node # Y)"
    using chains_ok_path [OF ok1 pos] c1 by simp
  have mem: "?node \<in> set (X @ ?node # Y)" by simp
  have kn: "key_at (heap ?s1) ?node = K" using kvn(1) by simp
  from searchNode_present [OF wf1 p1 mem kn] obtain p where
    p: "p \<in> set (X @ ?node # Y)" and sn: "searchNode ?s1 K = Some (Some p)"
    and kp: "key_at h1 p = K" by auto
  have pn: "p = ?node"
  proof (rule ccontr)
    assume "p \<noteq> ?node"
    with p XY have pc: "p \<in> set c0" by auto
    then have "p < ?node" using path_bound [OF c0, of p] by simp
    with kv have "key_at h1 p = key_at ?h p" by simp
    with nk pc kp show False by simp
  qed
  from searchNode_SomeD [OF sn] obtain n where n: "deref h1 p = Some n" by auto
  then have "val n = V" using kvn(2) pn by (simp add: val_at_def)
  with sn n have "search ?s1 K = Some V" by (simp add: search_def)
  with ins show ?thesis by blast
qed

theorem insert_then_search_witness:
  "reachable one_entry \<and> entries one_entry 0 = Some [(5, 7)] \<and>
   (3 :: KeyType) \<notin> fst ` set [(5 :: KeyType, 7 :: ValueType)] \<and>
   (\<exists>s1. insert_kv one_entry 3 9 1 = Some (0, s1) \<and> search s1 3 = Some 9)"
proof -
  have k: "(3 :: KeyType) \<notin> fst ` set [(5 :: KeyType, 7 :: ValueType)]" by simp
  from insert_then_search [OF reachable_one_entry entries_one_entry k, of 9 1]
  show ?thesis using reachable_one_entry entries_one_entry k by simp
qed

end
